theory Spec2Isabelle
  imports Main
begin

section \<open>Bytes, buffers and the chunk source\<close>

text \<open>
  The log parsers of \<^verbatim>\<open>arm9/source/utils/sysinfo.c\<close> work on C byte ranges
  \<^verbatim>\<open>(const char*, size_t)\<close>. A byte range is modelled by the list of its bytes, a
  pointer into a range by its offset, and \<^verbatim>\<open>NULL\<close> by \<open>None\<close>.
\<close>

abbreviation CR :: char where "CR \<equiv> CHR 0x0D"
abbreviation LF :: char where "LF \<equiv> CHR 0x0A"
abbreviation NUL :: char where "NUL \<equiv> CHR 0x00"

text \<open>\<^verbatim>\<open>char buffer[512]\<close>: \<^verbatim>\<open>sizeof(buffer)\<close>.\<close>

definition BUFSZ :: nat where
  "BUFSZ = 512"

text \<open>
  \<^verbatim>\<open>memchr(s, c, n)\<close> on the range \<open>s\<close> of \<open>n\<close> bytes: the offset of the first
  occurrence of \<open>c\<close>, or \<open>None\<close> for \<^verbatim>\<open>NULL\<close>.
\<close>

fun memchr :: "char list \<Rightarrow> char \<Rightarrow> nat option" where
  "memchr [] c = None"
| "memchr (x # xs) c = (if x = c then Some 0 else map_option Suc (memchr xs c))"

text \<open>
  Modelled from the spec: the chunk source behind \<^verbatim>\<open>fvx_read\<close> (its code is not part of
  the sources at hand). A source is the list of what its future reads hold: a chunk of
  bytes that is ready, or a failing read. A read of at most \<open>now\<close> bytes takes the next
  chunk, or its first \<open>now\<close> bytes when the chunk is larger (the rest stays for the next
  read); an exhausted source returns zero bytes. \<open>None\<close> is a result other than
  \<^verbatim>\<open>FR_OK\<close>; \<open>Some (bytes, src')\<close> is \<^verbatim>\<open>FR_OK\<close> with \<^verbatim>\<open>actual = length bytes\<close>.
\<close>

datatype chunk_event = Chunk "char list" | ReadError

type_synonym chunk_source = "chunk_event list"

fun fvx_read :: "chunk_source \<Rightarrow> nat \<Rightarrow> (char list \<times> chunk_source) option" where
  "fvx_read [] now = Some ([], [])"
| "fvx_read (ReadError # rest) now = None"
| "fvx_read (Chunk c # rest) now =
     (if length c \<le> now then Some (c, rest)
      else Some (take now c, Chunk (drop now c) # rest))"

text \<open>The number of bytes and events a source still holds: what every read with data uses up.\<close>

fun source_size :: "chunk_source \<Rightarrow> nat" where
  "source_size [] = 0"
| "source_size (ReadError # rest) = Suc (source_size rest)"
| "source_size (Chunk c # rest) = Suc (length c + source_size rest)"

section \<open>The line splitter \<^verbatim>\<open>SysInfo_ParseText\<close>\<close>

text \<open>
  The inner loop of \<^verbatim>\<open>SysInfo_ParseText\<close> (the search for line terminators). \<open>current\<close>
  is the range \<^verbatim>\<open>current[0 .. remaining)\<close>; the consumer \<^verbatim>\<open>line_parser(context, line, length)\<close>
  is a function from the context and the bytes of the line to the new context. The
  result is the unfinished line that \<^verbatim>\<open>memmove\<close> puts at the start of the buffer
  (\<^verbatim>\<open>filled\<close> is its length), the two flags and the context.
\<close>

lemma memchr_Some_pos: "memchr xs c = Some i \<Longrightarrow> 0 < length xs"
  by (cases xs) auto

function scan_lines ::
  "('ctx \<Rightarrow> char list \<Rightarrow> 'ctx) \<Rightarrow> char list \<Rightarrow> bool \<Rightarrow> bool \<Rightarrow> 'ctx
     \<Rightarrow> char list \<times> bool \<times> bool \<times> 'ctx" where
  "scan_lines line_parser current skip_line prev_cr context =
     (let carriage = memchr current CR;
          newline = memchr current LF
      in if carriage = None \<and> newline = None
         then (current, skip_line, prev_cr, context)
         else
           (let found = (case carriage of
                           None \<Rightarrow> (case newline of None \<Rightarrow> 0 | Some n \<Rightarrow> n)
                         | Some c \<Rightarrow> (case newline of None \<Rightarrow> c | Some n \<Rightarrow> min c n));
                len = found;
                context' =
                  (if \<not> skip_line \<and> (len \<noteq> 0 \<or> Some found \<noteq> newline \<or> \<not> prev_cr)
                   then line_parser context (take len current)
                   else context)
            in scan_lines line_parser (drop (found + 1) current) False
                 (Some found = carriage) context'))"
  by pat_completeness auto
termination
  by (relation "measure (\<lambda>(f, current, s, p, c). length current)")
     (auto dest!: memchr_Some_pos)

declare scan_lines.simps [simp del]

text \<open>
  The main loop. \<open>buffer\<close> is \<^verbatim>\<open>buffer[0 .. filled)\<close>. The loop is left by \<^verbatim>\<open>break\<close> when
  the read fails or returns no byte, with the buffer and the context it has then.
\<close>

lemma fvx_read_smaller:
  "fvx_read src now = Some (got, src') \<Longrightarrow> got \<noteq> [] \<Longrightarrow> source_size src' < source_size src"
  by (induction src now rule: fvx_read.induct) (auto split: if_splits)

function parse_loop ::
  "('ctx \<Rightarrow> char list \<Rightarrow> 'ctx) \<Rightarrow> chunk_source \<Rightarrow> char list \<Rightarrow> bool \<Rightarrow> bool \<Rightarrow> 'ctx
     \<Rightarrow> char list \<times> 'ctx" where
  "parse_loop line_parser file buffer skip_line prev_cr context =
     (let now = BUFSZ - length buffer
      in if now = 0
         then parse_loop line_parser file [] True prev_cr context
         else
           (case fvx_read file now of
              None \<Rightarrow> (buffer, context)
            | Some (got, file') \<Rightarrow>
                if length got = 0 then (buffer, context)
                else
                  (case scan_lines line_parser (buffer @ got) skip_line prev_cr context of
                     (rest, skip_line', prev_cr', context') \<Rightarrow>
                       parse_loop line_parser file' rest skip_line' prev_cr' context')))"
  by pat_completeness auto
termination
proof (relation "measures [\<lambda>(f, file, buffer, s, p, c). source_size file,
                           \<lambda>(f, file, buffer, s, p, c). if BUFSZ \<le> length buffer then 1 else 0]")
  show "wf (measures [\<lambda>(f, file, buffer, s, p, c). source_size file,
                      \<lambda>(f, file, buffer, s, p, c). if BUFSZ \<le> length buffer then 1 else (0::nat)])"
    by simp
qed (auto simp: BUFSZ_def dest: fvx_read_smaller)

declare parse_loop.simps [simp del]

text \<open>
  The code after the loop: a partial line left in the buffer is reported.
  \<open>parse_from\<close> is the function entered with given values of its local variables;
  \<open>SysInfo_ParseText\<close> starts with the empty buffer and both flags clear, and returns
  the context after the last call of the consumer (the C function returns nothing).
\<close>

definition parse_from ::
  "('ctx \<Rightarrow> char list \<Rightarrow> 'ctx) \<Rightarrow> chunk_source \<Rightarrow> char list \<Rightarrow> bool \<Rightarrow> bool \<Rightarrow> 'ctx \<Rightarrow> 'ctx" where
  "parse_from line_parser file buffer skip_line prev_cr context =
     (case parse_loop line_parser file buffer skip_line prev_cr context of
        (buffer', context') \<Rightarrow>
          if length buffer' > 0 then line_parser context' buffer' else context')"

definition SysInfo_ParseText ::
  "('ctx \<Rightarrow> char list \<Rightarrow> 'ctx) \<Rightarrow> 'ctx \<Rightarrow> chunk_source \<Rightarrow> 'ctx" where
  "SysInfo_ParseText line_parser context file =
     parse_from line_parser file [] False False context"

text \<open>The consumer that records its invocations: the lines it was called with, in order.\<close>

definition record_line :: "char list list \<Rightarrow> char list \<Rightarrow> char list list" where
  "record_line log line = log @ [line]"

section \<open>The comma tokenizer \<^verbatim>\<open>SysInfo_CommaSplit\<close>\<close>

text \<open>
  The loop of \<^verbatim>\<open>SysInfo_CommaSplit\<close>. \<open>line\<close> is the range \<^verbatim>\<open>line[0 .. line_length)\<close>
  that is still to be split and \<open>line_off\<close> the offset of its first byte in the line the
  function was called with. The result lists the entries written to the two output
  arrays, in order: entry \<open>k\<close> is \<^verbatim>\<open>(starts[k], lengths[k])\<close> with the pointer
  \<^verbatim>\<open>starts[k]\<close> as an offset; the returned count is the length of the list.
\<close>

function CommaSplit_loop :: "nat \<Rightarrow> nat \<Rightarrow> nat \<Rightarrow> char list \<Rightarrow> (nat \<times> nat) list" where
  "CommaSplit_loop max_entries index line_off line =
     (case memchr line (CHR '','') of
        None \<Rightarrow> [(line_off, length line)]
      | Some comma \<Rightarrow>
          if index = max_entries - 1 then [(line_off, length line)]
          else (line_off, comma) #
               CommaSplit_loop max_entries (index + 1) (line_off + (1 + comma))
                 (drop (1 + comma) line))"
  by pat_completeness auto
termination
  by (relation "measure (\<lambda>(m, i, off, line). length line)")
     (auto dest!: memchr_Some_pos)

declare CommaSplit_loop.simps [simp del]

definition SysInfo_CommaSplit :: "nat \<Rightarrow> char list \<Rightarrow> (nat \<times> nat) list" where
  "SysInfo_CommaSplit max_entries line =
     (if max_entries = 0 then [] else CommaSplit_loop max_entries 0 0 line)"

text \<open>The bytes of an entry: \<^verbatim>\<open>starts[k][0 .. lengths[k])\<close>.\<close>

definition entry_bytes :: "char list \<Rightarrow> nat \<times> nat \<Rightarrow> char list" where
  "entry_bytes line e = take (snd e) (drop (fst e) line)"

text \<open>
  Vocabulary of the statements about the tokenizer: the fields joined with single commas,
  and the content of a line after its \<open>k\<close>-th comma (\<open>None\<close> when the line has fewer
  than \<open>k\<close> commas).
\<close>

fun join_commas :: "char list list \<Rightarrow> char list" where
  "join_commas [] = []"
| "join_commas [f] = f"
| "join_commas (f # g # fs) = f @ CHR '','' # join_commas (g # fs)"

fun after_commas :: "nat \<Rightarrow> char list \<Rightarrow> char list option" where
  "after_commas 0 line = Some line"
| "after_commas (Suc k) line =
     (if CHR '','' \<in> set line
      then after_commas k (tl (dropWhile (\<lambda>c. c \<noteq> CHR '','') line))
      else None)"

section \<open>The record extractors\<close>

text \<open>
  The fields of \<^verbatim>\<open>struct _SysInfo\<close> that the log parsers write, as the arrays of bytes
  they are: \<^verbatim>\<open>char assembly_date[19 + 1]\<close> and \<^verbatim>\<open>char original_firmware[15 + 1]\<close>.
  The other fields are the extension part of the record.
\<close>

record SysInfo =
  assembly_date :: "char list"
  original_firmware :: "char list"

definition assembly_date_size :: nat where
  "assembly_date_size = 19 + 1"

definition original_firmware_size :: nat where
  "original_firmware_size = 15 + 1"

text \<open>The string a \<^verbatim>\<open>char\<close> array holds: its bytes before the first NUL.\<close>

definition c_string :: "char list \<Rightarrow> char list" where
  "c_string arr = takeWhile (\<lambda>c. c \<noteq> NUL) arr"

text \<open>
  \<^verbatim>\<open>memcpy(&dst[off], src, n)\<close> for a range that lies inside \<open>dst\<close>, and
  \<^verbatim>\<open>isdigit\<close> of the C locale.
\<close>

definition memcpy :: "char list \<Rightarrow> nat \<Rightarrow> char list \<Rightarrow> nat \<Rightarrow> char list" where
  "memcpy dst off src n = take off dst @ take n src @ drop (off + n) dst"

definition isdigit :: "char \<Rightarrow> bool" where
  "isdigit c = (of_char (CHR ''0'') \<le> (of_char c :: nat) \<and> (of_char c :: nat) \<le> of_char (CHR ''9''))"

fun SysInfo_IsOnlyDigits :: "char list \<Rightarrow> bool" where
  "SysInfo_IsOnlyDigits [] = True"
| "SysInfo_IsOnlyDigits (c # str) = (if \<not> isdigit c then False else SysInfo_IsOnlyDigits str)"

definition s_commentUpdated :: "char list" where
  "s_commentUpdated = ''CommentUpdated=''"

text \<open>
  \<^verbatim>\<open>SysInfoLineParser_InspectLog\<close>: the context is the \<^verbatim>\<open>SysInfo\<close>, and the function
  returns it as it is after the call.
\<close>

definition SysInfoLineParser_InspectLog :: "'a SysInfo_scheme \<Rightarrow> char list \<Rightarrow> 'a SysInfo_scheme" where
  "SysInfoLineParser_InspectLog info line =
     (if length line < length s_commentUpdated then info
      else if take (length s_commentUpdated) line \<noteq> s_commentUpdated then info
      else
        (let len = length line - length s_commentUpdated;
             line' = drop (length s_commentUpdated) line;
             len' = min len (assembly_date_size - 1)
         in info\<lparr>assembly_date := (memcpy (assembly_date info) 0 line' len')[len' := NUL]\<rparr>))"

text \<open>
  The two kinds of loop of \<^verbatim>\<open>SysInfoLineParser_ProductLog\<close> over the range
  \<^verbatim>\<open>verinfo[0 .. remaining)\<close>: advance to the next space, and advance over spaces.
\<close>

fun find_whitespace :: "char list \<Rightarrow> char list" where
  "find_whitespace [] = []"
| "find_whitespace (c # verinfo) =
     (if c \<noteq> CHR '' '' then find_whitespace verinfo else c # verinfo)"

fun skip_whitespace :: "char list \<Rightarrow> char list" where
  "skip_whitespace [] = []"
| "skip_whitespace (c # verinfo) =
     (if c = CHR '' '' then skip_whitespace verinfo else c # verinfo)"

definition SIZE_MAX :: nat where
  "SIZE_MAX = 2 ^ 32 - 1"

text \<open>
  \<^verbatim>\<open>SysInfoLineParser_ProductLog\<close>. \<^verbatim>\<open>size_t\<close> has 32 bits on this target; the one sum
  that the code tests for wrap-around is taken modulo \<open>2 ^ 32\<close>, and the sums after the
  two tests cannot wrap. \<open>nup\<close> is the range from \<^verbatim>\<open>nup_start\<close> to \<^verbatim>\<open>nup_end\<close> and
  \<open>cup\<close> the range from \<^verbatim>\<open>cup_start\<close> to \<^verbatim>\<open>cup_end\<close>.
\<close>

definition SysInfoLineParser_ProductLog :: "'a SysInfo_scheme \<Rightarrow> char list \<Rightarrow> 'a SysInfo_scheme" where
  "SysInfoLineParser_ProductLog info line =
     (let entries = SysInfo_CommaSplit 10 line;
          entry_count = length entries;
          entry = (\<lambda>k. entry_bytes line (entries ! k))
      in if entry_count < 2 then info
         else if length (entry 0) = 0 \<or> \<not> SysInfo_IsOnlyDigits (entry 0) then info
         else if length (entry 1) = 8 \<and> entry 1 = ''DataList'' then
           (if entry_count < 8 \<or> length (entry 2) \<noteq> 2 \<or> entry 2 \<noteq> ''OK'' then info
            else
              (let verinfo = entry 7
               in if length verinfo < 4 \<or> take 4 verinfo \<noteq> ''nup:'' then info
                  else
                    (let nup_start = drop 4 verinfo;
                         nup_end = find_whitespace nup_start;
                         verinfo' = skip_whitespace nup_end
                     in if length verinfo' < 4 \<or> take 4 verinfo' \<noteq> ''cup:'' then info
                        else
                          (let cup_start = drop 4 verinfo';
                               cup_end = find_whitespace cup_start;
                               nup_length = length nup_start - length nup_end;
                               cup_length = length cup_start - length cup_end
                           in if (nup_length + cup_length) mod 2 ^ 32 < nup_length then info
                              else if nup_length + cup_length > SIZE_MAX - 1 - 1 then info
                              else if cup_length + 1 + nup_length + 1 > original_firmware_size
                                then info
                              else
                                (let fw0 = original_firmware info;
                                     fw1 = memcpy fw0 0 cup_start cup_length;
                                     fw2 = fw1[cup_length := CHR ''-''];
                                     fw3 = memcpy fw2 (cup_length + 1) nup_start nup_length;
                                     fw4 = fw3[cup_length + 1 + nup_length := NUL]
                                 in info\<lparr>original_firmware := fw4\<rparr>)))))
         else info)"

section \<open>The splitter read one byte at a time\<close>

text \<open>
  A reference reading of the splitter, used to reason about it: the state after a prefix
  of the stream is the unfinished line, the flags \<^verbatim>\<open>skip_line\<close> and \<^verbatim>\<open>prev_cr\<close>, and
  the context. \<open>byte_step\<close> is what one more byte of the stream does to it: a terminator
  reports or suppresses the line and sets the flags; any other byte extends the line, and
  a line that has reached the size of the buffer is dropped with \<^verbatim>\<open>skip_line\<close> set.
\<close>

type_synonym 'ctx split_state = "char list \<times> bool \<times> bool \<times> 'ctx"

fun byte_step :: "('ctx \<Rightarrow> char list \<Rightarrow> 'ctx) \<Rightarrow> 'ctx split_state \<Rightarrow> char \<Rightarrow> 'ctx split_state" where
  "byte_step f (acc, skip, pcr, ctx) b =
     (if b = CR \<or> b = LF
      then ([], False, b = CR,
            if \<not> skip \<and> (acc \<noteq> [] \<or> b \<noteq> LF \<or> \<not> pcr) then f ctx acc else ctx)
      else if BUFSZ \<le> Suc (length acc) then ([], True, pcr, ctx)
      else (acc @ [b], skip, pcr, ctx))"

text \<open>What the head of the main loop does to a full buffer.\<close>

fun full_reset :: "'ctx split_state \<Rightarrow> 'ctx split_state" where
  "full_reset (buf, skip, pcr, ctx) =
     (if BUFSZ \<le> length buf then ([], True, pcr, ctx) else (buf, skip, pcr, ctx))"

text \<open>The report of the partial line after the loop.\<close>

fun flush :: "('ctx \<Rightarrow> char list \<Rightarrow> 'ctx) \<Rightarrow> 'ctx split_state \<Rightarrow> 'ctx" where
  "flush f (acc, skip, pcr, ctx) = (if acc \<noteq> [] then f ctx acc else ctx)"

definition split_bytes :: "('ctx \<Rightarrow> char list \<Rightarrow> 'ctx) \<Rightarrow> 'ctx \<Rightarrow> char list \<Rightarrow> 'ctx" where
  "split_bytes f ctx data = flush f (foldl (byte_step f) ([], False, False, ctx) data)"

text \<open>
  The bytes a source hands out before the splitter stops reading: those of its chunks up
  to the first failing read, the first empty chunk (a read of zero bytes) or its end.
\<close>

fun delivered :: "chunk_source \<Rightarrow> char list" where
  "delivered [] = []"
| "delivered (ReadError # rest) = []"
| "delivered (Chunk c # rest) = (if c = [] then [] else c @ delivered rest)"

definition loop_result :: "'ctx split_state \<Rightarrow> char list \<times> 'ctx" where
  "loop_result st = (case st of (a, s, p, c) \<Rightarrow> (a, c))"


text \<open>
  Vocabulary of the statements: a list of line contents with the terminator \<open>t\<close> after
  each of them; a range without CR and LF; and a stream prefix that ends where a line
  starts (it is empty or ends with a terminator).
\<close>

definition terminated_by :: "char list \<Rightarrow> char list list \<Rightarrow> char list" where
  "terminated_by t ls = concat (map (\<lambda>l. l @ t) ls)"

definition clean :: "char list \<Rightarrow> bool" where
  "clean l = (CR \<notin> set l \<and> LF \<notin> set l)"

definition at_line_start :: "char list \<Rightarrow> bool" where
  "at_line_start pre = (pre = [] \<or> last pre = CR \<or> last pre = LF)"

section \<open>The splitter and its byte-wise reading agree\<close>

lemma memchr_None_iff: "memchr xs c = None \<longleftrightarrow> c \<notin> set xs"
  by (induction xs) auto

lemma memchr_append_notin:
  "c \<notin> set a \<Longrightarrow>
   memchr (a @ ys) c = (case memchr ys c of None \<Rightarrow> None | Some i \<Rightarrow> Some (length a + i))"
  by (induction a) (auto split: option.splits)

lemma scan_lines_no_term:
  "CR \<notin> set xs \<Longrightarrow> LF \<notin> set xs \<Longrightarrow> scan_lines f xs s p c = (xs, s, p, c)"
  by (subst scan_lines.simps) (simp add: memchr_None_iff)

lemma memchr_first:
  "c \<notin> set a \<Longrightarrow> memchr (a @ c # g) c = Some (length a)"
  by (simp add: memchr_append_notin)

lemma memchr_later:
  "c \<notin> set a \<Longrightarrow> b \<noteq> c \<Longrightarrow>
   memchr (a @ b # g) c = None \<or> (\<exists>i. memchr (a @ b # g) c = Some (length a + Suc i))"
  by (cases "memchr g c") (simp_all add: memchr_append_notin)

lemma scan_lines_found:
  assumes "memchr current CR = carriage" "memchr current LF = newline"
    and "carriage = Some n \<and> (newline = None \<or> (\<exists>i. newline = Some (n + Suc i))) \<or>
         newline = Some n \<and> (carriage = None \<or> (\<exists>i. carriage = Some (n + Suc i)))"
  shows "scan_lines f current s p c =
         scan_lines f (drop (Suc n) current) False (carriage = Some n)
           (if \<not> s \<and> (n \<noteq> 0 \<or> newline \<noteq> Some n \<or> \<not> p) then f c (take n current) else c)"
  using assms(3)
  by (subst scan_lines.simps, unfold assms(1,2) Let_def) (elim disjE conjE exE; simp; metis)

lemma scan_lines_term:
  assumes "CR \<notin> set a" "LF \<notin> set a" "b = CR \<or> b = LF"
  shows "scan_lines f (a @ b # g) s p c =
         scan_lines f g False (b = CR)
           (if \<not> s \<and> (a \<noteq> [] \<or> b \<noteq> LF \<or> \<not> p) then f c a else c)"
proof -
  consider (cr) "b = CR" | (lf) "b = LF"
    using assms(3) by blast
  then show ?thesis
  proof cases
    case cr
    have 1: "memchr (a @ b # g) CR = Some (length a)"
      using assms(1) cr by (simp add: memchr_first)
    have 2: "memchr (a @ b # g) LF = None \<or> (\<exists>i. memchr (a @ b # g) LF = Some (length a + Suc i))"
      using assms(2) cr by (intro memchr_later) simp_all
    show ?thesis
      using 1 2 cr by (subst scan_lines_found [OF refl refl, of _ "length a"]) auto
  next
    case lf
    have 1: "memchr (a @ b # g) LF = Some (length a)"
      using assms(2) lf by (simp add: memchr_first)
    have 2: "memchr (a @ b # g) CR = None \<or> (\<exists>i. memchr (a @ b # g) CR = Some (length a + Suc i))"
      using assms(1) lf by (intro memchr_later) simp_all
    show ?thesis
      using 1 2 lf by (subst scan_lines_found [OF refl refl, of _ "length a"]) auto
  qed
qed

lemma scan_lines_steps:
  "CR \<notin> set acc \<Longrightarrow> LF \<notin> set acc \<Longrightarrow> length acc < BUFSZ \<Longrightarrow> length acc + length got \<le> BUFSZ \<Longrightarrow>
   full_reset (scan_lines f (acc @ got) s p c) = foldl (byte_step f) (acc, s, p, c) got"
proof (induction got arbitrary: acc s p c)
  case Nil
  then show ?case by (simp add: scan_lines_no_term)
next
  case (Cons b g)
  show ?case
  proof (cases "b = CR \<or> b = LF")
    case True
    have "full_reset (scan_lines f ([] @ g) False (b = CR)
           (if \<not> s \<and> (acc \<noteq> [] \<or> b \<noteq> LF \<or> \<not> p) then f c acc else c))
          = foldl (byte_step f) ([], False, b = CR,
              (if \<not> s \<and> (acc \<noteq> [] \<or> b \<noteq> LF \<or> \<not> p) then f c acc else c)) g"
      using Cons.prems by (intro Cons.IH) auto
    with True Cons.prems show ?thesis
      by (simp add: scan_lines_term)
  next
    case False
    show ?thesis
    proof (cases "Suc (length acc) < BUFSZ")
      case True
      have "full_reset (scan_lines f ((acc @ [b]) @ g) s p c) = foldl (byte_step f) (acc @ [b], s, p, c) g"
        using Cons.prems False True by (intro Cons.IH) auto
      with False True show ?thesis by simp
    next
      case F2: False
      have g: "g = []"
        using F2 Cons.prems by (cases g) auto
      have full: "BUFSZ \<le> Suc (length acc)"
        using F2 by simp
      have "scan_lines f (acc @ [b]) s p c = (acc @ [b], s, p, c)"
        using False Cons.prems by (intro scan_lines_no_term) auto
      then show ?thesis
        using False full by (simp add: g)
    qed
  qed
qed

lemma scan_lines_clean:
  "CR \<notin> set acc \<Longrightarrow> LF \<notin> set acc \<Longrightarrow> scan_lines f (acc @ got) s p c = (r, s', p', c') \<Longrightarrow>
   CR \<notin> set r \<and> LF \<notin> set r"
proof (induction got arbitrary: acc s p c)
  case Nil
  then show ?case by (simp add: scan_lines_no_term)
next
  case (Cons b g)
  show ?case
  proof (cases "b = CR \<or> b = LF")
    case True
    with Cons.prems have "scan_lines f ([] @ g) False (b = CR)
           (if \<not> s \<and> (acc \<noteq> [] \<or> b \<noteq> LF \<or> \<not> p) then f c acc else c) = (r, s', p', c')"
      by (simp add: scan_lines_term)
    then show ?thesis
      by (rule Cons.IH [rotated 2]) simp_all
  next
    case False
    with Cons.prems have "scan_lines f ((acc @ [b]) @ g) s p c = (r, s', p', c')"
      by simp
    then show ?thesis
      by (rule Cons.IH [rotated 2]) (use False Cons.prems in auto)
  qed
qed

lemma parse_loop_full:
  "BUFSZ \<le> length buf \<Longrightarrow> parse_loop f src buf s p c = parse_loop f src [] True p c"
  by (subst parse_loop.simps) simp

lemma parse_loop_read:
  "length buf < BUFSZ \<Longrightarrow>
   parse_loop f src buf s p c =
     (case fvx_read src (BUFSZ - length buf) of
        None \<Rightarrow> (buf, c)
      | Some (got, src') \<Rightarrow>
          if got = [] then (buf, c)
          else (case scan_lines f (buf @ got) s p c of
                  (r, s', p', c') \<Rightarrow> parse_loop f src' r s' p' c'))"
  by (subst parse_loop.simps) (simp add: Let_def split: option.splits)

lemma fvx_read_delivered:
  "fvx_read src now = Some (got, src') \<Longrightarrow> got \<noteq> [] \<Longrightarrow> 0 < now \<Longrightarrow>
   delivered src = got @ delivered src' \<and> length got \<le> now"
  by (induction src now rule: fvx_read.induct) (auto split: if_splits)

lemma fvx_read_stop:
  "fvx_read src now = None \<or> fvx_read src now = Some ([], src') \<Longrightarrow> 0 < now \<Longrightarrow> delivered src = []"
  by (induction src now rule: fvx_read.induct) (auto split: if_splits)

lemma parse_loop_steps_aux:
  "CR \<notin> set buf \<Longrightarrow> LF \<notin> set buf \<Longrightarrow> length buf < BUFSZ \<Longrightarrow>
   parse_loop f src buf s p c = loop_result (foldl (byte_step f) (buf, s, p, c) (delivered src))"
proof (induction "source_size src" arbitrary: src buf s p c rule: less_induct)
  case less
  let ?now = "BUFSZ - length buf"
  have now: "0 < ?now"
    using less.prems by simp
  show ?case
  proof (cases "fvx_read src ?now")
    case None
    then have "delivered src = []"
      using now fvx_read_stop by blast
    with None less.prems show ?thesis
      by (simp add: parse_loop_read loop_result_def)
  next
    case (Some res)
    obtain got src' where res: "res = (got, src')"
      by (cases res)
    show ?thesis
    proof (cases "got = []")
      case True
      then have "delivered src = []"
        using Some res now fvx_read_stop by blast
      with Some res True less.prems show ?thesis
        by (simp add: parse_loop_read loop_result_def)
    next
      case False
      obtain r s' p' c' where sc: "scan_lines f (buf @ got) s p c = (r, s', p', c')"
        by (cases "scan_lines f (buf @ got) s p c")
      have rd: "fvx_read src ?now = Some (got, src')"
        using Some res by simp
      from fvx_read_delivered [OF rd False now]
      have del: "delivered src = got @ delivered src'" and len: "length got \<le> ?now"
        by simp_all
      have smaller: "source_size src' < source_size src"
        using rd False by (rule fvx_read_smaller)
      have clean: "CR \<notin> set r \<and> LF \<notin> set r"
        using less.prems(1,2) sc by (rule scan_lines_clean)
      have steps: "full_reset (r, s', p', c') = foldl (byte_step f) (buf, s, p, c) got"
        using scan_lines_steps [of buf got f s p c] less.prems len sc by simp
      have unfold: "parse_loop f src buf s p c = parse_loop f src' r s' p' c'"
        using less.prems rd False sc by (simp add: parse_loop_read)
      show ?thesis
      proof (cases "BUFSZ \<le> length r")
        case True
        have "parse_loop f src' r s' p' c' = parse_loop f src' [] True p' c'"
          using True by (rule parse_loop_full)
        also have "\<dots> = loop_result (foldl (byte_step f) ([], True, p', c') (delivered src'))"
          using smaller by (intro less.hyps) (simp_all add: BUFSZ_def)
        finally show ?thesis
          using unfold steps True by (simp add: del)
      next
        case F: False
        have "parse_loop f src' r s' p' c' = loop_result (foldl (byte_step f) (r, s', p', c') (delivered src'))"
          using smaller clean F by (intro less.hyps) simp_all
        then show ?thesis
          using unfold steps F by (simp add: del)
      qed
    qed
  qed
qed

lemma split_bytes_char:
  "SysInfo_ParseText f ctx src = split_bytes f ctx (delivered src)"
proof -
  have "parse_loop f src [] False False ctx
        = loop_result (foldl (byte_step f) ([], False, False, ctx) (delivered src))"
    by (rule parse_loop_steps_aux) (simp_all add: BUFSZ_def)
  then show ?thesis
    by (cases "foldl (byte_step f) ([], False, False, ctx) (delivered src)")
       (simp add: SysInfo_ParseText_def parse_from_def split_bytes_def loop_result_def)
qed

lemma delivered_single: "delivered [Chunk input] = input"
  by simp

lemma delivered_chunks: "[] \<notin> set chunks \<Longrightarrow> delivered (map Chunk chunks) = concat chunks"
  by (induction chunks) auto

lemma delivered_bytewise: "delivered (map (\<lambda>b. Chunk [b]) input) = input"
  by (induction input) auto

section \<open>Chunk boundaries\<close>

text \<open>
  C1. The splitter run on the whole input held ready as one chunk, and run on the same
  input broken into any non-empty chunks, give the same calls of the consumer in the
  same order: for every consumer and start context the final context is the same, and
  with the recording consumer the recorded sequences of lines are equal. One byte per
  read is the chunking \<open>map (\<lambda>b. Chunk [b]) input\<close>. The equality does not need the
  proviso that no line overflows the buffer: it holds for every input.
\<close>

theorem ParseText_chunking:
  assumes "concat chunks = input" and "[] \<notin> set chunks"
  shows "SysInfo_ParseText line_parser context (map Chunk chunks)
           = SysInfo_ParseText line_parser context [Chunk input]
         \<and> SysInfo_ParseText record_line [] (map Chunk chunks)
           = SysInfo_ParseText record_line [] [Chunk input]
         \<and> SysInfo_ParseText line_parser context (map (\<lambda>b. Chunk [b]) input)
           = SysInfo_ParseText line_parser context [Chunk input]"
  using assms
  by (simp add: split_bytes_char delivered_chunks delivered_bytewise delivered_single
        del: delivered.simps)

theorem ParseText_chunking_witness:
  "SysInfo_ParseText record_line [] (map Chunk [''a'', [CR], [LF], ''b''])
     = SysInfo_ParseText record_line [] [Chunk [CHR ''a'', CR, LF, CHR ''b'']]"
  using ParseText_chunking [of "[''a'', [CR], [LF], ''b'']" "[CHR ''a'', CR, LF, CHR ''b'']"
          record_line "[]"]
  by simp

lemma steps_fill:
  "clean l \<Longrightarrow> length a + length l < BUFSZ \<Longrightarrow>
   foldl (byte_step f) (a, s, p, c) l = (a @ l, s, p, c)"
  by (induction l arbitrary: a) (auto simp: clean_def)

lemma steps_skipping:
  "clean l \<Longrightarrow> \<exists>a'. foldl (byte_step f) (a, True, p, c) l = (a', True, p, c)"
  by (induction l arbitrary: a) (auto simp: clean_def)

lemma steps_overlong:
  "clean l \<Longrightarrow> length a < BUFSZ \<Longrightarrow> BUFSZ \<le> length a + length l \<Longrightarrow>
   \<exists>a'. foldl (byte_step f) (a, s, p, c) l = (a', True, p, c)"
proof (induction l arbitrary: a)
  case Nil
  then show ?case by simp
next
  case (Cons b l)
  then have b: "b \<noteq> CR" "b \<noteq> LF" and l: "clean l"
    by (auto simp: clean_def)
  show ?case
  proof (cases "BUFSZ \<le> Suc (length a)")
    case True
    then show ?thesis
      using b steps_skipping [OF l, of f "[]" p c] by simp
  next
    case False
    then have "\<exists>a'. foldl (byte_step f) (a @ [b], s, p, c) l = (a', True, p, c)"
      using Cons.prems l by (intro Cons.IH) auto
    then show ?thesis
      using b False by simp
  qed
qed

lemma step_line_LF:
  "clean l \<Longrightarrow> length l < BUFSZ \<Longrightarrow>
   foldl (byte_step f) ([], False, False, c) (l @ [LF]) = ([], False, False, f c l)"
  by (simp add: steps_fill)

lemma step_line_CR:
  "clean l \<Longrightarrow> length l < BUFSZ \<Longrightarrow>
   foldl (byte_step f) ([], False, p, c) (l @ [CR]) = ([], False, True, f c l)"
  by (simp add: steps_fill)

lemma step_line_CRLF:
  "clean l \<Longrightarrow> length l < BUFSZ \<Longrightarrow>
   foldl (byte_step f) ([], False, False, c) (l @ [CR, LF]) = ([], False, False, f c l)"
  by (simp add: steps_fill)

lemma terminated_by_Cons: "terminated_by t (l # ls) = (l @ t) @ terminated_by t ls"
  by (simp add: terminated_by_def)

lemma steps_lines:
  assumes line: "\<And>l c p. p = p0 \<or> p = p1 \<Longrightarrow> clean l \<Longrightarrow> length l < BUFSZ \<Longrightarrow>
            foldl (byte_step f) ([], False, p, c) (l @ t) = ([], False, p1, f c l)"
  shows "\<forall>l\<in>set ls. clean l \<and> length l < BUFSZ \<Longrightarrow> p = p0 \<or> p = p1 \<Longrightarrow>
         foldl (byte_step f) ([], False, p, c) (terminated_by t ls)
           = ([], False, if ls = [] then p else p1, foldl f c ls)"
proof (induction ls arbitrary: c p)
  case Nil
  then show ?case by (simp add: terminated_by_def)
next
  case (Cons l ls)
  have "foldl (byte_step f) ([], False, p, c) (terminated_by t (l # ls))
        = foldl (byte_step f) (foldl (byte_step f) ([], False, p, c) (l @ t)) (terminated_by t ls)"
    by (simp only: terminated_by_Cons foldl_append)
  also have "\<dots> = foldl (byte_step f) ([], False, p1, f c l) (terminated_by t ls)"
    using Cons.prems by (subst line) simp_all
  also have "\<dots> = ([], False, if ls = [] then p1 else p1, foldl f (f c l) ls)"
    using Cons.prems by (intro Cons.IH) simp_all
  finally show ?case by simp
qed

lemma split_lines_LF:
  assumes "\<forall>l\<in>set ls. clean l \<and> length l < BUFSZ"
  shows "split_bytes f c (terminated_by [LF] ls) = foldl f c ls"
  using steps_lines [of False False f "[LF]" ls False c, OF _ assms]
  by (simp add: split_bytes_def steps_fill)

lemma split_lines_CR:
  assumes "\<forall>l\<in>set ls. clean l \<and> length l < BUFSZ"
  shows "split_bytes f c (terminated_by [CR] ls) = foldl f c ls"
  using steps_lines [of False True f "[CR]" ls False c, OF _ assms]
  by (simp add: split_bytes_def steps_fill)

lemma split_lines_CRLF:
  assumes "\<forall>l\<in>set ls. clean l \<and> length l < BUFSZ"
  shows "split_bytes f c (terminated_by [CR, LF] ls) = foldl f c ls"
  using steps_lines [of False False f "[CR, LF]" ls False c, OF _ assms]
  by (simp add: split_bytes_def steps_fill)

lemma foldl_record_line: "foldl record_line log ls = log @ ls"
  by (induction ls arbitrary: log) (simp_all add: record_line_def)

section \<open>Terminator styles\<close>

text \<open>
  C2. For line contents without CR and LF that are shorter than the buffer, the splitter
  calls the consumer with exactly these lines, in order, whether every line is
  terminated by LF, by CR or by CR LF: the three streams give the same sequence of lines.
\<close>

theorem terminator_style:
  assumes "\<forall>l\<in>set lines. CR \<notin> set l \<and> LF \<notin> set l \<and> length l < BUFSZ"
  shows "SysInfo_ParseText line_parser context [Chunk (terminated_by [LF] lines)]
           = foldl line_parser context lines
         \<and> SysInfo_ParseText line_parser context [Chunk (terminated_by [CR] lines)]
           = foldl line_parser context lines
         \<and> SysInfo_ParseText line_parser context [Chunk (terminated_by [CR, LF] lines)]
           = foldl line_parser context lines
         \<and> SysInfo_ParseText record_line [] [Chunk (terminated_by [LF] lines)] = lines
         \<and> SysInfo_ParseText record_line [] [Chunk (terminated_by [CR] lines)] = lines
         \<and> SysInfo_ParseText record_line [] [Chunk (terminated_by [CR, LF] lines)] = lines"
proof -
  have *: "\<forall>l\<in>set lines. clean l \<and> length l < BUFSZ"
    using assms by (simp add: clean_def)
  show ?thesis
    by (simp add: split_bytes_char delivered_single split_lines_LF [OF *] split_lines_CR [OF *]
          split_lines_CRLF [OF *] foldl_record_line del: delivered.simps)
qed

text \<open>C2 at the lines \<open>ab\<close>, the empty line and \<open>c\<close>.\<close>

theorem terminator_style_witness:
  "SysInfo_ParseText record_line [] [Chunk (terminated_by [LF] [''ab'', [], ''c''])]
     = [''ab'', [], ''c'']
   \<and> SysInfo_ParseText record_line [] [Chunk (terminated_by [CR] [''ab'', [], ''c''])]
     = [''ab'', [], ''c'']
   \<and> SysInfo_ParseText record_line [] [Chunk (terminated_by [CR, LF] [''ab'', [], ''c''])]
     = [''ab'', [], ''c'']"
  using terminator_style [of "[''ab'', [], ''c'']" record_line "[]"]
  by (simp add: BUFSZ_def record_line_def)

lemma steps_snoc:
  "foldl (byte_step f) st (xs @ [b]) = byte_step f (foldl (byte_step f) st xs) b"
  by simp

lemma steps_line_start:
  assumes "at_line_start pre"
  shows "foldl (byte_step f) ([], False, False, c) pre
           = ([], False, pre \<noteq> [] \<and> last pre = CR, split_bytes f c pre)"
proof (cases pre rule: rev_cases)
  case Nil
  then show ?thesis by (simp add: split_bytes_def)
next
  case (snoc q t)
  obtain a s p c' where st: "foldl (byte_step f) ([], False, False, c) q = (a, s, p, c')"
    by (cases "foldl (byte_step f) ([], False, False, c) q")
  have t: "t = CR \<or> t = LF"
    using assms snoc by (simp add: at_line_start_def)
  then show ?thesis
    using snoc st by (auto simp: split_bytes_def)
qed

lemma split_bytes_from:
  "foldl (byte_step f) ([], False, False, c) xs = st \<Longrightarrow>
   split_bytes f c (xs @ ys) = flush f (foldl (byte_step f) st ys)"
  by (simp add: split_bytes_def)

lemma parse_from_steps:
  assumes "CR \<notin> set buf" "LF \<notin> set buf" "length buf < BUFSZ"
  shows "parse_from f src buf s p c = flush f (foldl (byte_step f) (buf, s, p, c) (delivered src))"
  using parse_loop_steps_aux [OF assms, of f src s p c]
  by (cases "foldl (byte_step f) (buf, s, p, c) (delivered src)")
     (simp add: parse_from_def loop_result_def)

lemma clean_replicate: "x \<noteq> CR \<Longrightarrow> x \<noteq> LF \<Longrightarrow> clean (replicate n x)"
  by (simp add: clean_def)

lemma steps_exact_fill:
  assumes "clean l" "length l = BUFSZ"
  shows "foldl (byte_step f) ([], s, p, c) l = ([], True, p, c)"
proof (cases l rule: rev_cases)
  case Nil
  then show ?thesis using assms by (simp add: BUFSZ_def)
next
  case (snoc q b)
  then have "clean q" "length q < BUFSZ" "b \<noteq> CR" "b \<noteq> LF" "BUFSZ \<le> Suc (length q)"
    using assms by (auto simp: clean_def)
  then show ?thesis
    using snoc by (simp add: steps_fill)
qed

lemma steps_overlong_line:
  assumes "at_line_start pre" "clean l" "BUFSZ \<le> length l"
  shows "\<exists>a'. foldl (byte_step f) ([], False, False, c) (pre @ l)
           = (a', True, pre \<noteq> [] \<and> last pre = CR, split_bytes f c pre)"
  using steps_overlong [OF assms(2), of "[]" f False "pre \<noteq> [] \<and> last pre = CR" "split_bytes f c pre"]
    assms(3)
  by (simp add: steps_line_start [OF assms(1)] BUFSZ_def)

lemma flush_prev_cr_irrelevant:
  "a \<noteq> [] \<or> s \<Longrightarrow>
   flush f (foldl (byte_step f) (a, s, p, c) xs) = flush f (foldl (byte_step f) (a, s, q, c) xs)"
proof (induction xs arbitrary: a s)
  case Nil
  then show ?case by simp
next
  case (Cons b xs)
  show ?case
  proof (cases "b = CR \<or> b = LF")
    case True
    then show ?thesis using Cons.prems by auto
  next
    case False
    show ?thesis
    proof (cases "BUFSZ \<le> Suc (length a)")
      case True
      have "flush f (foldl (byte_step f) ([], True, p, c) xs)
            = flush f (foldl (byte_step f) ([], True, q, c) xs)"
        by (rule Cons.IH) simp
      then show ?thesis using False True by simp
    next
      case full: False
      have "flush f (foldl (byte_step f) (a @ [b], s, p, c) xs)
            = flush f (foldl (byte_step f) (a @ [b], s, q, c) xs)"
        by (rule Cons.IH) simp
      then show ?thesis using False full by simp
    qed
  qed
qed

lemma flush_after_bare_CR:
  assumes "rest = [] \<or> hd rest \<noteq> LF"
  shows "flush f (foldl (byte_step f) ([], False, True, c) rest)
         = flush f (foldl (byte_step f) ([], False, False, c) rest)"
proof (cases rest)
  case Nil
  then show ?thesis by simp
next
  case (Cons b r)
  then have b: "b \<noteq> LF"
    using assms by simp
  show ?thesis
  proof (cases "b = CR")
    case True
    then show ?thesis using Cons by simp
  next
    case False
    have "flush f (foldl (byte_step f) ([b], False, True, c) r)
          = flush f (foldl (byte_step f) ([b], False, False, c) r)"
      by (rule flush_prev_cr_irrelevant) simp
    then show ?thesis
      using Cons b False by (simp add: BUFSZ_def)
  qed
qed

section \<open>The LF of a CR LF pair\<close>

text \<open>
  C3, as stated, fails: in the stream \<open>x LF\<close>, 512 bytes \<open>a\<close>, \<open>LF\<close> the last LF ends a
  zero-length segment (the buffer has just been reset by the overflow) and the terminator
  before it is an LF, not a CR; yet the segment is not reported, because
  \<^verbatim>\<open>skip_line\<close> is set. The inner loop entered with \<^verbatim>\<open>skip_line\<close> set and
  \<^verbatim>\<open>prev_cr\<close> clear on the range \<open>LF\<close> does not call the consumer.
\<close>

theorem LF_after_overflow_suppressed:
  "SysInfo_ParseText record_line [] [Chunk (CHR ''x'' # LF # replicate 512 (CHR ''a'') @ [LF])]
     = [''x'']
   \<and> scan_lines record_line [LF] True False [''x''] = ([], False, False, [''x''])"
proof -
  let ?a = "CHR ''a''"
  have 1: "foldl (byte_step record_line) ([], False, False, [''x'']) (replicate 512 ?a)
           = ([], True, False, [''x''])"
    by (rule steps_exact_fill) (simp_all add: clean_replicate BUFSZ_def)
  have 0: "foldl (byte_step record_line) ([], False, False, []) [CHR ''x'', LF]
        = ([], False, False, [''x''])"
    by (simp add: BUFSZ_def record_line_def)
  have "split_bytes record_line [] ([CHR ''x'', LF] @ replicate 512 ?a @ [LF])
        = flush record_line
            (foldl (byte_step record_line) ([], False, False, [''x'']) (replicate 512 ?a @ [LF]))"
    by (rule split_bytes_from [OF 0])
  also have "\<dots> = [''x'']"
    by (simp add: 1)
  finally have stream: "SysInfo_ParseText record_line []
      [Chunk (CHR ''x'' # LF # replicate 512 (CHR ''a'') @ [LF])] = [''x'']"
    by (simp add: split_bytes_char)
  have "scan_lines record_line [LF] True False [''x''] = ([], False, False, [''x''])"
    using scan_lines_term [of "[]" LF record_line "[]" True False "[''x'']"]
    by (simp add: scan_lines_no_term)
  with stream show ?thesis by simp
qed

text \<open>
  C3, amended. The stream \<open>a CR LF b\<close> gives exactly the two lines \<open>a\<close> and \<open>b\<close>. A
  zero-length segment terminated by LF is suppressed exactly when \<^verbatim>\<open>skip_line\<close> (the
  overflow flag) is set or \<^verbatim>\<open>prev_cr\<close> is set, and \<^verbatim>\<open>prev_cr\<close> is set exactly
  when the terminator before was a CR:
  \<^item> in the inner loop, a range that starts with LF is scanned like the range after the LF,
    with the empty line reported unless one of the two flags is set;
  \<^item> in the inner loop, a segment without CR and LF that ends with the terminator \<open>t\<close> is
    suppressed exactly when \<^verbatim>\<open>skip_line\<close> is set, or the segment is empty, \<open>t\<close> is LF
    and \<^verbatim>\<open>prev_cr\<close> is set; the scan goes on with \<^verbatim>\<open>skip_line\<close> clear and
    \<^verbatim>\<open>prev_cr\<close> set exactly when \<open>t\<close> is CR;
  \<^item> the function entered with an empty buffer and any values of the two flags, on a stream
    that starts with LF, behaves in the same way;
  \<^item> on a whole stream, an LF that directly follows a terminator or starts the stream
    adds no call of the consumer when the byte before it is a CR and one call with the
    empty line otherwise, and what follows the LF is split like a stream of its own.
\<close>

theorem LF_segment_report:
  "SysInfo_ParseText record_line [] [Chunk [CHR ''a'', CR, LF, CHR ''b'']] = [''a'', ''b'']
   \<and> scan_lines line_parser (LF # rest) skip_line prev_cr context
       = scan_lines line_parser rest False False
           (if skip_line \<or> prev_cr then context else line_parser context [])
   \<and> (CR \<notin> set seg \<and> LF \<notin> set seg \<and> (t = CR \<or> t = LF) \<longrightarrow>
        scan_lines line_parser (seg @ t # rest) skip_line prev_cr context
          = scan_lines line_parser rest False (t = CR)
              (if skip_line \<or> (seg = [] \<and> t = LF \<and> prev_cr) then context
               else line_parser context seg))
   \<and> parse_from line_parser [Chunk (LF # rest)] [] skip_line prev_cr context
       = parse_from line_parser [Chunk rest] [] False False
           (if skip_line \<or> prev_cr then context else line_parser context [])
   \<and> (at_line_start pre \<longrightarrow>
        SysInfo_ParseText record_line [] [Chunk (pre @ [LF])]
          = SysInfo_ParseText record_line [] [Chunk pre]
            @ (if pre \<noteq> [] \<and> last pre = CR then [] else [[]]))
   \<and> (at_line_start pre \<longrightarrow>
        SysInfo_ParseText line_parser context [Chunk (pre @ LF # rest)]
          = SysInfo_ParseText line_parser
              (if pre \<noteq> [] \<and> last pre = CR
               then SysInfo_ParseText line_parser context [Chunk pre]
               else line_parser (SysInfo_ParseText line_parser context [Chunk pre]) [])
              [Chunk rest])"
proof -
  have 1: "SysInfo_ParseText record_line [] [Chunk [CHR ''a'', CR, LF, CHR ''b'']] = [''a'', ''b'']"
    by (simp add: split_bytes_char split_bytes_def BUFSZ_def record_line_def)
  have seg: "scan_lines line_parser (seg @ t # rest) skip_line prev_cr context
          = scan_lines line_parser rest False (t = CR)
              (if skip_line \<or> (seg = [] \<and> t = LF \<and> prev_cr) then context
               else line_parser context seg)"
    if "CR \<notin> set seg" "LF \<notin> set seg" "t = CR \<or> t = LF" for seg t
  proof -
    have "(\<not> skip_line \<and> (seg \<noteq> [] \<or> t \<noteq> LF \<or> \<not> prev_cr))
          = (\<not> (skip_line \<or> (seg = [] \<and> t = LF \<and> prev_cr)))"
      by blast
    then show ?thesis
      using scan_lines_term [OF that, of line_parser rest skip_line prev_cr "context"]
      by (simp only: if_not_P if_P split: if_splits) auto
  qed
  have 2: "scan_lines line_parser (LF # rest) skip_line prev_cr context
       = scan_lines line_parser rest False False
           (if skip_line \<or> prev_cr then context else line_parser context [])"
    using seg [of "[]" LF] by simp
  have 3: "parse_from line_parser [Chunk (LF # rest)] [] skip_line prev_cr context
       = parse_from line_parser [Chunk rest] [] False False
           (if skip_line \<or> prev_cr then context else line_parser context [])"
    by (simp add: parse_from_steps BUFSZ_def)
  have stream: "split_bytes f c (pre @ LF # rest)
          = split_bytes f
              (if pre \<noteq> [] \<and> last pre = CR then split_bytes f c pre
               else f (split_bytes f c pre) [])
              rest" if "at_line_start pre" for f :: "'b \<Rightarrow> char list \<Rightarrow> 'b" and c rest
    unfolding split_bytes_from [OF steps_line_start [OF that]]
    by (simp add: split_bytes_def)
  have 4: "SysInfo_ParseText record_line [] [Chunk (pre @ [LF])]
          = SysInfo_ParseText record_line [] [Chunk pre]
            @ (if pre \<noteq> [] \<and> last pre = CR then [] else [[]])" if "at_line_start pre"
    using stream [OF that, of record_line "[]" "[]"]
    by (simp add: split_bytes_char delivered_single record_line_def split_bytes_def
          del: delivered.simps)
  have 5: "SysInfo_ParseText line_parser context [Chunk (pre @ LF # rest)]
          = SysInfo_ParseText line_parser
              (if pre \<noteq> [] \<and> last pre = CR
               then SysInfo_ParseText line_parser context [Chunk pre]
               else line_parser (SysInfo_ParseText line_parser context [Chunk pre]) [])
              [Chunk rest]" if "at_line_start pre"
    using stream [OF that, of line_parser "context" rest]
    by (simp add: split_bytes_char delivered_single del: delivered.simps)
  from 1 2 seg 3 4 5 show ?thesis by blast
qed

text \<open>
  C3, amended, at the segment \<open>ab\<close> ended by CR with an LF after it, and after \<open>x CR\<close>
  and \<open>x LF\<close>.
\<close>

theorem LF_segment_report_witness:
  "scan_lines record_line (''ab'' @ CR # [LF]) False False []
     = scan_lines record_line [LF] False True [''ab'']
   \<and> SysInfo_ParseText record_line [] [Chunk [CHR ''x'', CR, LF]]
     = SysInfo_ParseText record_line [] [Chunk [CHR ''x'', CR]]
   \<and> SysInfo_ParseText record_line [] [Chunk [CHR ''x'', LF, LF]]
     = SysInfo_ParseText record_line [] [Chunk [CHR ''x'', LF]] @ [[]]"
  using LF_segment_report [of record_line "[LF]" False False "[]" "''ab''" CR "[CHR ''x'', CR]",
          THEN conjunct2, THEN conjunct2, THEN conjunct1]
    LF_segment_report [of record_line "[]" False False "[]" "[]" CR "[CHR ''x'', CR]",
          THEN conjunct2, THEN conjunct2, THEN conjunct2, THEN conjunct2, THEN conjunct1]
    LF_segment_report [of record_line "[]" False False "[]" "[]" CR "[CHR ''x'', LF]",
          THEN conjunct2, THEN conjunct2, THEN conjunct2, THEN conjunct2, THEN conjunct1]
  by (simp add: at_line_start_def record_line_def)

section \<open>Lines that overflow the buffer\<close>

text \<open>
  C4. A stream of 600 bytes \<open>a\<close> without any terminator: the buffer overflows after 512
  bytes, \<^verbatim>\<open>skip_line\<close> is set, and the stream ends 88 bytes later. The report after
  the loop does not test \<^verbatim>\<open>skip_line\<close>: the consumer is called with these 88 bytes.
\<close>

theorem unterminated_overflow_tail:
  "SysInfo_ParseText record_line [] [Chunk (replicate 600 (CHR ''a''))] = [replicate 88 (CHR ''a'')]"
proof -
  let ?a = "CHR ''a''"
  have split: "replicate 600 ?a = replicate 512 ?a @ replicate 88 ?a"
    by (simp flip: replicate_add)
  have 1: "foldl (byte_step record_line) ([], False, False, []) (replicate 512 ?a)
           = ([], True, False, [])"
    by (rule steps_exact_fill) (simp_all add: clean_replicate BUFSZ_def)
  have 2: "foldl (byte_step record_line) ([], True, False, []) (replicate 88 ?a)
           = ([] @ replicate 88 ?a, True, False, [])"
    by (rule steps_fill) (simp_all add: clean_replicate BUFSZ_def)
  have "split_bytes record_line [] (replicate 600 ?a) = [replicate 88 ?a]"
    unfolding split_bytes_def split foldl_append 1 2
    by (simp add: record_line_def)
  then show ?thesis
    by (simp add: split_bytes_char)
qed

text \<open>
  C5, as stated, fails: a line of 512 bytes \<open>a\<close> fills the buffer; its buffered prefix
  is not reported, the only call of the consumer is the one for the next line \<open>b\<close>.
\<close>

theorem overflow_prefix_not_delivered:
  "SysInfo_ParseText record_line [] [Chunk (replicate 512 (CHR ''a'') @ [LF, CHR ''b'', LF])] = [''b'']"
proof -
  let ?a = "CHR ''a''"
  have 1: "foldl (byte_step record_line) ([], False, False, []) (replicate 512 ?a)
           = ([], True, False, [])"
    by (rule steps_exact_fill) (simp_all add: clean_replicate BUFSZ_def)
  have "split_bytes record_line [] (replicate 512 ?a @ [LF, CHR ''b'', LF]) = [''b'']"
    unfolding split_bytes_def foldl_append 1
    by (simp add: record_line_def BUFSZ_def)
  then show ?thesis
    by (simp add: split_bytes_char)
qed

text \<open>
  C5, amended. When the buffer is full, its bytes are dropped unreported and
  \<^verbatim>\<open>skip_line\<close> is set (the function entered with a full buffer goes on like the
  function entered with an empty buffer and \<^verbatim>\<open>skip_line\<close> set). A line of at least 512
  bytes that starts at a line start and is terminated by LF, by CR LF or by a bare CR (a CR
  at the end of the stream or before a byte other than LF) causes no call of the consumer
  at all: the stream up to its terminator gives the calls of the stream before the line,
  and what follows the terminator is split like a stream of its own, from the context
  the lines before have left.
\<close>

theorem overlong_line_suppressed:
  assumes "pre = [] \<or> last pre = CR \<or> last pre = LF"
    and "CR \<notin> set l" and "LF \<notin> set l" and "BUFSZ \<le> length l"
  shows "(BUFSZ \<le> length buffer \<longrightarrow>
            parse_from line_parser file buffer skip_line prev_cr context
              = parse_from line_parser file [] True prev_cr context)
         \<and> SysInfo_ParseText line_parser context [Chunk (pre @ l @ LF # rest)]
           = SysInfo_ParseText line_parser (SysInfo_ParseText line_parser context [Chunk pre])
               [Chunk rest]
         \<and> SysInfo_ParseText line_parser context [Chunk (pre @ l @ CR # LF # rest)]
           = SysInfo_ParseText line_parser (SysInfo_ParseText line_parser context [Chunk pre])
               [Chunk rest]
         \<and> (rest = [] \<or> hd rest \<noteq> LF \<longrightarrow>
              SysInfo_ParseText line_parser context [Chunk (pre @ l @ CR # rest)]
                = SysInfo_ParseText line_parser
                    (SysInfo_ParseText line_parser context [Chunk pre]) [Chunk rest])
         \<and> SysInfo_ParseText line_parser context [Chunk (pre @ l @ [LF])]
           = SysInfo_ParseText line_parser context [Chunk pre]
         \<and> SysInfo_ParseText line_parser context [Chunk (pre @ l @ [CR])]
           = SysInfo_ParseText line_parser context [Chunk pre]
         \<and> SysInfo_ParseText line_parser context [Chunk (pre @ l @ [CR, LF])]
           = SysInfo_ParseText line_parser context [Chunk pre]"
proof -
  have start: "at_line_start pre" and l: "clean l"
    using assms by (simp_all add: at_line_start_def clean_def)
  from steps_overlong_line [OF start l assms(4), of line_parser "context"]
  obtain a' where st: "foldl (byte_step line_parser) ([], False, False, context) (pre @ l)
      = (a', True, pre \<noteq> [] \<and> last pre = CR, split_bytes line_parser context pre)"
    by blast
  have 0: "parse_from line_parser file buffer skip_line prev_cr context
             = parse_from line_parser file [] True prev_cr context" if "BUFSZ \<le> length buffer"
    using that by (simp add: parse_from_def parse_loop_full)
  have lf: "split_bytes line_parser context ((pre @ l) @ LF # rest)
          = split_bytes line_parser (split_bytes line_parser context pre) rest" for rest
    unfolding split_bytes_from [OF st] by (simp add: split_bytes_def)
  have crlf: "split_bytes line_parser context ((pre @ l) @ CR # LF # rest)
          = split_bytes line_parser (split_bytes line_parser context pre) rest" for rest
    unfolding split_bytes_from [OF st] by (simp add: split_bytes_def)
  have cr: "split_bytes line_parser context ((pre @ l) @ CR # rest)
          = split_bytes line_parser (split_bytes line_parser context pre) rest"
    if "rest = [] \<or> hd rest \<noteq> LF" for rest
    unfolding split_bytes_from [OF st]
    using flush_after_bare_CR [OF that, of line_parser "split_bytes line_parser context pre"]
    by (simp add: split_bytes_def)
  have empty: "split_bytes line_parser c [] = c" for c
    by (simp add: split_bytes_def)
  show ?thesis
    using 0 lf [of rest] crlf [of rest] cr [of rest] lf [of "[]"] cr [of "[]"] crlf [of "[]"]
    by (simp add: split_bytes_char delivered_single empty del: delivered.simps)
qed

text \<open>
  C5, amended, at a line of 512 bytes between the lines \<open>x\<close> and \<open>y\<close>, terminated by LF
  and by a bare CR.
\<close>

theorem overlong_line_suppressed_witness:
  "SysInfo_ParseText record_line [] [Chunk (''x'' @ [LF] @ replicate 512 (CHR ''a'') @ LF # ''y'')]
     = SysInfo_ParseText record_line (SysInfo_ParseText record_line [] [Chunk (''x'' @ [LF])])
         [Chunk ''y'']
   \<and> SysInfo_ParseText record_line [] [Chunk (''x'' @ [LF] @ replicate 512 (CHR ''a'') @ CR # ''y'')]
     = SysInfo_ParseText record_line (SysInfo_ParseText record_line [] [Chunk (''x'' @ [LF])])
         [Chunk ''y'']"
  using overlong_line_suppressed [of "''x'' @ [LF]" "replicate 512 (CHR ''a'')" "[]" record_line
          "[]" False False "[]" "''y''"]
  by (simp add: BUFSZ_def)

section \<open>Failing reads\<close>

lemma delivered_until_error:
  "[] \<notin> set chunks \<Longrightarrow> delivered (map Chunk chunks @ ReadError # rest) = concat chunks"
  by (induction chunks) auto

lemma split_bytes_partial:
  assumes "at_line_start pre" "clean partial" "partial \<noteq> []" "length partial < BUFSZ"
  shows "split_bytes f c (pre @ partial) = f (split_bytes f c pre) partial"
  unfolding split_bytes_from [OF steps_line_start [OF assms(1)]]
  using assms(2-4) by (simp add: steps_fill)

lemma parse_from_error:
  assumes "length buffer < BUFSZ"
  shows "parse_from f (ReadError # rest) buffer s p c = (if buffer = [] then c else f c buffer)"
  using assms by (simp add: parse_from_def parse_loop_read)

text \<open>
  C9. A failing read ends the parse like the end of the stream: the function returns
  (there is no error result), with the same calls of the consumer as for the chunks read
  before the failure. A partial line that these chunks end with (not empty, without
  terminator, shorter than the buffer) is reported as the last line; in terms of the
  loop, the bytes in a buffer that is not full when the read fails are reported.
\<close>

theorem read_error_flushes:
  assumes "[] \<notin> set chunks"
  shows "SysInfo_ParseText line_parser context (map Chunk chunks @ ReadError # rest)
           = SysInfo_ParseText line_parser context (map Chunk chunks)
         \<and> (concat chunks = pre @ partial \<and> (pre = [] \<or> last pre = CR \<or> last pre = LF)
              \<and> CR \<notin> set partial \<and> LF \<notin> set partial \<and> partial \<noteq> []
              \<and> length partial < BUFSZ
            \<longrightarrow> SysInfo_ParseText line_parser context (map Chunk chunks @ ReadError # rest)
                  = line_parser (SysInfo_ParseText line_parser context [Chunk pre]) partial)
         \<and> (length buffer < BUFSZ
            \<longrightarrow> parse_from line_parser (ReadError # rest) buffer skip_line prev_cr context
                  = (if buffer = [] then context else line_parser context buffer))"
  using assms
  by (simp add: split_bytes_char delivered_until_error delivered_chunks delivered_single
        split_bytes_partial parse_from_error at_line_start_def clean_def del: delivered.simps)

text \<open>C9 at the chunks \<open>ab LF\<close> and \<open>cd\<close> followed by a failing read.\<close>

theorem read_error_flushes_witness:
  "SysInfo_ParseText record_line [] (map Chunk [''ab'' @ [LF], ''cd''] @ ReadError # [Chunk ''ef''])
     = record_line (SysInfo_ParseText record_line [] [Chunk (''ab'' @ [LF])]) ''cd''
   \<and> parse_from record_line (ReadError # [Chunk ''ef'']) ''cd'' False False [''ab'']
     = [''ab'', ''cd'']"
  using read_error_flushes [of "[''ab'' @ [LF], ''cd'']" record_line "[]" "[Chunk ''ef'']"
          "''ab'' @ [LF]" "''cd''" "''cd''" False False, THEN conjunct2, THEN conjunct1]
    read_error_flushes [of "[''ab'' @ [LF], ''cd'']" record_line "[''ab'']" "[Chunk ''ef'']"
          "''ab'' @ [LF]" "''cd''" "''cd''" False False, THEN conjunct2, THEN conjunct2]
  by (simp add: BUFSZ_def record_line_def)

section \<open>The comma tokenizer: bounds and partition\<close>

lemma memchr_Some:
  "memchr xs c = Some i \<Longrightarrow> i < length xs \<and> xs ! i = c \<and> c \<notin> set (take i xs)"
proof (induction xs arbitrary: i)
  case Nil
  then show ?case by simp
next
  case (Cons x xs)
  then show ?case
    by (cases "x = c") (auto simp: nth_Cons' split: if_splits)
qed

lemma memchr_dropWhile:
  "memchr xs c = Some i \<Longrightarrow> tl (dropWhile (\<lambda>x. x \<noteq> c) xs) = drop (Suc i) xs"
  by (induction xs arbitrary: i) (auto split: if_splits)

lemma loop_no_comma:
  "memchr line (CHR '','') = None \<Longrightarrow> CommaSplit_loop m i off line = [(off, length line)]"
  by (subst CommaSplit_loop.simps) simp

lemma loop_last_entry:
  "i = m - 1 \<Longrightarrow> CommaSplit_loop m i off line = [(off, length line)]"
  by (subst CommaSplit_loop.simps) (simp split: option.splits)

lemma loop_comma:
  "memchr line (CHR '','') = Some c \<Longrightarrow> i \<noteq> m - 1 \<Longrightarrow>
   CommaSplit_loop m i off line
     = (off, c) # CommaSplit_loop m (Suc i) (off + Suc c) (drop (Suc c) line)"
  by (subst CommaSplit_loop.simps) simp

lemma loop_cases:
  obtains (single) "CommaSplit_loop m i off line = [(off, length line)]"
      and "memchr line (CHR '','') = None \<or> i = m - 1"
  | (more) c where "memchr line (CHR '','') = Some c" "i \<noteq> m - 1"
      and "CommaSplit_loop m i off line
             = (off, c) # CommaSplit_loop m (Suc i) (off + Suc c) (drop (Suc c) line)"
proof (cases "memchr line (CHR '','')")
  case None
  then show ?thesis using single loop_no_comma by blast
next
  case (Some c)
  show ?thesis
  proof (cases "i = m - 1")
    case True
    then show ?thesis using single loop_last_entry by blast
  next
    case False
    then show ?thesis using more Some loop_comma by blast
  qed
qed

lemma loop_hd: "CommaSplit_loop m i off line \<noteq> [] \<and> fst (hd (CommaSplit_loop m i off line)) = off"
  by (rule loop_cases [where m=m and i=i and off=off and line=line]) simp_all

lemma loop_nth0: "fst (CommaSplit_loop m i off line ! 0) = off"
  by (rule loop_cases [where m=m and i=i and off=off and line=line]) simp_all

lemma loop_length: "i < m \<Longrightarrow> length (CommaSplit_loop m i off line) \<le> m - i"
proof (induction m i off line rule: CommaSplit_loop.induct)
  case (1 m i off line)
  show ?case
  proof (cases rule: loop_cases [where m=m and i=i and off=off and line=line])
    case single
    then show ?thesis using "1.prems" by simp
  next
    case (more c)
    then have "length (CommaSplit_loop m (i + 1) (off + (1 + c)) (drop (1 + c) line)) \<le> m - (i + 1)"
      using "1.prems" by (intro "1.IH") auto
    then show ?thesis
      using more "1.prems" by simp
  qed
qed

lemma loop_last:
  "fst (last (CommaSplit_loop m i off line)) + snd (last (CommaSplit_loop m i off line))
     = off + length line"
proof (induction m i off line rule: CommaSplit_loop.induct)
  case (1 m i off line)
  show ?case
  proof (cases rule: loop_cases [where m=m and i=i and off=off and line=line])
    case single
    then show ?thesis by simp
  next
    case (more c)
    let ?rec = "CommaSplit_loop m (i + 1) (off + (1 + c)) (drop (1 + c) line)"
    have "fst (last ?rec) + snd (last ?rec) = off + (1 + c) + length (drop (1 + c) line)"
      using more by (intro "1.IH") auto
    moreover have "c < length line"
      using more(1) memchr_Some by blast
    ultimately show ?thesis
      using more loop_hd [of m "Suc i" "off + Suc c" "drop (Suc c) line"] by simp
  qed
qed

lemma loop_chain:
  "Suc k < length (CommaSplit_loop m i off line) \<Longrightarrow> drop off whole = line \<Longrightarrow>
   fst (CommaSplit_loop m i off line ! Suc k)
     = fst (CommaSplit_loop m i off line ! k) + snd (CommaSplit_loop m i off line ! k) + 1
   \<and> whole ! (fst (CommaSplit_loop m i off line ! k) + snd (CommaSplit_loop m i off line ! k))
     = CHR '',''"
proof (induction m i off line arbitrary: k rule: CommaSplit_loop.induct)
  case (1 m i off line)
  show ?case
  proof (cases rule: loop_cases [where m=m and i=i and off=off and line=line])
    case single
    then show ?thesis using "1.prems" by simp
  next
    case (more c)
    let ?rec = "CommaSplit_loop m (i + 1) (off + (1 + c)) (drop (1 + c) line)"
    have c: "c < length line" "line ! c = CHR '',''"
      using more(1) memchr_Some by blast+
    have off: "off + c < length whole"
      using c(1) "1.prems"(2) by auto
    have whole: "drop (off + (1 + c)) whole = drop (1 + c) line"
      using "1.prems"(2) by (auto simp: add.commute)
    show ?thesis
    proof (cases k)
      case 0
      have "whole ! (off + c) = line ! c"
        using "1.prems"(2) off by (metis nth_drop less_imp_le_nat le_add1 le_trans)
      then show ?thesis
        using 0 more c loop_nth0 [of m "Suc i" "off + Suc c" "drop (Suc c) line"]
        by simp
    next
      case (Suc j)
      have "fst (?rec ! Suc j) = fst (?rec ! j) + snd (?rec ! j) + 1
            \<and> whole ! (fst (?rec ! j) + snd (?rec ! j)) = CHR '',''"
        using more "1.prems"(1) Suc whole by (intro "1.IH") auto
      then show ?thesis
        using Suc more by simp
    qed
  qed
qed

lemma join_commas_Cons:
  "fs \<noteq> [] \<Longrightarrow> join_commas (f # fs) = f @ CHR '','' # join_commas fs"
  by (cases fs) simp_all

lemma loop_join:
  "drop off whole = line \<Longrightarrow>
   join_commas (map (entry_bytes whole) (CommaSplit_loop m i off line)) = line"
proof (induction m i off line rule: CommaSplit_loop.induct)
  case (1 m i off line)
  show ?case
  proof (cases rule: loop_cases [where m=m and i=i and off=off and line=line])
    case single
    then show ?thesis using "1.prems" by (simp add: entry_bytes_def)
  next
    case (more c)
    let ?rec = "CommaSplit_loop m (i + 1) (off + (1 + c)) (drop (1 + c) line)"
    have c: "c < length line" "line ! c = CHR '',''"
      using more(1) memchr_Some by blast+
    have whole: "drop (off + (1 + c)) whole = drop (1 + c) line"
      using "1.prems" by (auto simp: add.commute)
    have "join_commas (map (entry_bytes whole) ?rec) = drop (1 + c) line"
      using more whole by (intro "1.IH") auto
    moreover have "entry_bytes whole (off, c) = take c line"
      using "1.prems" by (simp add: entry_bytes_def)
    moreover have "?rec \<noteq> []"
      using loop_hd by blast
    ultimately have "join_commas (map (entry_bytes whole) (CommaSplit_loop m i off line))
          = take c line @ CHR '','' # drop (Suc c) line"
      using more by (simp add: join_commas_Cons)
    also have "\<dots> = line"
      using c by (metis id_take_nth_drop)
    finally show ?thesis .
  qed
qed

lemma loop_fold:
  "i < m \<Longrightarrow> after_commas (m - 1 - i) line = Some r \<Longrightarrow> drop off whole = line \<Longrightarrow>
   length (CommaSplit_loop m i off line) = m - i
   \<and> entry_bytes whole (last (CommaSplit_loop m i off line)) = r"
proof (induction m i off line rule: CommaSplit_loop.induct)
  case (1 m i off line)
  show ?case
  proof (cases rule: loop_cases [where m=m and i=i and off=off and line=line])
    case single
    have "m - 1 - i = 0"
    proof (rule ccontr)
      assume "m - 1 - i \<noteq> 0"
      then obtain k where k: "m - 1 - i = Suc k" and "i \<noteq> m - 1"
        by (cases "m - 1 - i") auto
      with single(2) have "CHR '','' \<notin> set line"
        by (simp add: memchr_None_iff)
      with k "1.prems"(2) show False by simp
    qed
    then show ?thesis
      using single "1.prems" by (simp add: entry_bytes_def)
  next
    case (more c)
    let ?rec = "CommaSplit_loop m (i + 1) (off + (1 + c)) (drop (1 + c) line)"
    have k: "m - 1 - i = Suc (m - 1 - (i + 1))"
      using more(2) "1.prems"(1) by simp
    have comma: "CHR '','' \<in> set line"
      using more(1) by (metis memchr_None_iff option.distinct(1))
    have "after_commas (m - 1 - (i + 1)) (drop (1 + c) line) = Some r"
      using "1.prems"(2) comma memchr_dropWhile [OF more(1)] unfolding k by simp
    moreover have "drop (off + (1 + c)) whole = drop (1 + c) line"
      using "1.prems"(3) by (auto simp: add.commute)
    moreover have "i + 1 < m"
      using more(2) "1.prems"(1) by simp
    ultimately have "length ?rec = m - (i + 1) \<and> entry_bytes whole (last ?rec) = r"
      using more by (intro "1.IH") auto
    then show ?thesis
      using more "1.prems"(1) loop_hd [of m "Suc i" "off + Suc c" "drop (Suc c) line"] by simp
  qed
qed

text \<open>
  C6. \<^verbatim>\<open>SysInfo_CommaSplit\<close> returns at most \<open>max_entries\<close> entries. When the line has
  at least \<open>max_entries - 1\<close> commas, it returns exactly \<open>max_entries\<close> entries and the
  last one is the whole content after the \<open>(max_entries - 1)\<close>-th comma, further commas
  included. \<open>a,b,c\<close> with 2 entries gives \<open>a\<close> and \<open>b,c\<close>; the empty line with 5
  entries gives one empty field; 0 entries give no field.
\<close>

theorem CommaSplit_bounded:
  "length (SysInfo_CommaSplit max_entries line) \<le> max_entries
   \<and> (0 < max_entries \<and> after_commas (max_entries - 1) line = Some rest
      \<longrightarrow> length (SysInfo_CommaSplit max_entries line) = max_entries
          \<and> entry_bytes line (last (SysInfo_CommaSplit max_entries line)) = rest)
   \<and> map (entry_bytes ''a,b,c'') (SysInfo_CommaSplit 2 ''a,b,c'') = [''a'', ''b,c'']
   \<and> map (entry_bytes []) (SysInfo_CommaSplit 5 []) = [[]]
   \<and> SysInfo_CommaSplit 0 line = []"
proof -
  have 1: "length (SysInfo_CommaSplit max_entries line) \<le> max_entries"
    using loop_length [of 0 max_entries 0 line] by (simp add: SysInfo_CommaSplit_def)
  have 2: "length (SysInfo_CommaSplit max_entries line) = max_entries
          \<and> entry_bytes line (last (SysInfo_CommaSplit max_entries line)) = rest"
    if "0 < max_entries" "after_commas (max_entries - 1) line = Some rest"
    using loop_fold [of 0 max_entries line rest 0 line] that by (simp add: SysInfo_CommaSplit_def)
  have 3: "map (entry_bytes ''a,b,c'') (SysInfo_CommaSplit 2 ''a,b,c'') = [''a'', ''b,c'']"
    by (simp add: SysInfo_CommaSplit_def loop_comma loop_last_entry entry_bytes_def)
  have 4: "map (entry_bytes []) (SysInfo_CommaSplit 5 []) = [[]]"
    by (simp add: SysInfo_CommaSplit_def loop_no_comma entry_bytes_def)
  have 5: "SysInfo_CommaSplit 0 line = []"
    by (simp add: SysInfo_CommaSplit_def)
  from 1 2 3 4 5 show ?thesis by blast
qed

text \<open>C6 at \<open>a,b,c,d\<close> with 2 entries.\<close>

theorem CommaSplit_bounded_witness:
  "length (SysInfo_CommaSplit 2 ''a,b,c,d'') = 2
   \<and> entry_bytes ''a,b,c,d'' (last (SysInfo_CommaSplit 2 ''a,b,c,d'')) = ''b,c,d''"
  using CommaSplit_bounded [of 2 "''a,b,c,d''" "''b,c,d''"]
  by simp

text \<open>
  C10. For \<open>max_entries > 0\<close> the entries partition the line: the first entry starts at
  offset 0, every further entry starts one byte after the end of the entry before it,
  that byte is a comma, the last entry ends at the end of the line, and the entries
  joined with single commas are the line.
\<close>

theorem CommaSplit_partition:
  assumes "0 < max_entries"
  shows "SysInfo_CommaSplit max_entries line \<noteq> []
         \<and> fst (hd (SysInfo_CommaSplit max_entries line)) = 0
         \<and> (\<forall>k. Suc k < length (SysInfo_CommaSplit max_entries line) \<longrightarrow>
               fst (SysInfo_CommaSplit max_entries line ! Suc k)
                 = fst (SysInfo_CommaSplit max_entries line ! k)
                   + snd (SysInfo_CommaSplit max_entries line ! k) + 1
               \<and> line ! (fst (SysInfo_CommaSplit max_entries line ! k)
                          + snd (SysInfo_CommaSplit max_entries line ! k)) = CHR '','')
         \<and> fst (last (SysInfo_CommaSplit max_entries line))
             + snd (last (SysInfo_CommaSplit max_entries line)) = length line
         \<and> join_commas (map (entry_bytes line) (SysInfo_CommaSplit max_entries line)) = line"
  using assms loop_hd [of max_entries 0 0 line] loop_last [of max_entries 0 0 line]
    loop_join [of 0 line line max_entries 0] loop_chain [of _ max_entries 0 0 line line]
  by (simp add: SysInfo_CommaSplit_def)

text \<open>C10 at \<open>ab,,c,d\<close> with 3 entries.\<close>

theorem CommaSplit_partition_witness:
  "SysInfo_CommaSplit 3 ''ab,,c,d'' = [(0, 2), (3, 0), (4, 3)]
   \<and> join_commas (map (entry_bytes ''ab,,c,d'') (SysInfo_CommaSplit 3 ''ab,,c,d'')) = ''ab,,c,d''"
  using CommaSplit_partition [of 3 "''ab,,c,d''"]
  by (simp add: SysInfo_CommaSplit_def loop_comma loop_last_entry)

section \<open>The tag extractor \<^verbatim>\<open>SysInfoLineParser_InspectLog\<close>\<close>

lemma takeWhile_stop: "\<not> P y \<Longrightarrow> takeWhile P (xs @ y # ys) = takeWhile P xs"
  by (induction xs) auto

lemma c_string_terminated: "c_string (xs @ NUL # ys) = c_string xs"
  by (simp add: c_string_def takeWhile_stop)

lemma poke_after:
  "length xs = n \<Longrightarrow> n < length xs + length ys \<Longrightarrow>
   (xs @ ys)[n := z] = xs @ z # drop 1 ys"
  by (cases ys) (simp_all add: list_update_append)

lemma s_commentUpdated_length: "length s_commentUpdated = 15"
  by (simp add: s_commentUpdated_def)

lemma prefix_length:
  assumes "take (length p) line = p"
  shows "length p \<le> length line"
proof -
  have "length (take (length p) line) = length p"
    using assms by simp
  then show ?thesis by simp
qed

lemma InspectLog_match:
  assumes "length (assembly_date info) = assembly_date_size"
    and "take (length s_commentUpdated) line = s_commentUpdated"
  shows "assembly_date (SysInfoLineParser_InspectLog info line)
         = take 19 (drop 15 line) @ NUL # drop (Suc (min (length line - 15) 19)) (assembly_date info)"
proof -
  let ?rest = "drop 15 line"
  let ?n = "min (length line - 15) 19"
  let ?ad = "assembly_date info"
  have len: "15 \<le> length line"
    using prefix_length [OF assms(2)] by (simp add: s_commentUpdated_length)
  have n: "length (take ?n ?rest) = ?n"
    by simp
  have tk: "take ?n ?rest = take 19 ?rest"
    by (simp add: min_def)
  have "(memcpy ?ad 0 ?rest ?n)[?n := NUL] = (take ?n ?rest @ drop ?n ?ad)[?n := NUL]"
    by (simp add: memcpy_def)
  also have "\<dots> = take ?n ?rest @ NUL # drop 1 (drop ?n ?ad)"
    using assms(1) by (intro poke_after) (simp_all add: assembly_date_size_def)
  finally have "(memcpy ?ad 0 ?rest ?n)[?n := NUL] = take 19 ?rest @ NUL # drop (Suc ?n) ?ad"
    by (simp add: tk)
  then show ?thesis
    using assms(2) len
    by (simp add: SysInfoLineParser_InspectLog_def s_commentUpdated_length assembly_date_size_def Let_def)
qed

lemma InspectLog_no_match:
  "take (length s_commentUpdated) line \<noteq> s_commentUpdated \<Longrightarrow>
   SysInfoLineParser_InspectLog info line = info"
  by (simp add: SysInfoLineParser_InspectLog_def)

lemma InspectLog_length:
  assumes "length (assembly_date info) = assembly_date_size"
  shows "length (assembly_date (SysInfoLineParser_InspectLog info line)) = assembly_date_size"
proof (cases "take (length s_commentUpdated) line = s_commentUpdated")
  case True
  then show ?thesis
    using assms by (simp add: InspectLog_match assembly_date_size_def)
next
  case False
  then show ?thesis
    using assms by (simp add: InspectLog_no_match)
qed

lemma InspectLog_other_fields:
  "original_firmware (SysInfoLineParser_InspectLog info line) = original_firmware info
   \<and> SysInfo.more (SysInfoLineParser_InspectLog info line) = SysInfo.more info"
  by (simp add: SysInfoLineParser_InspectLog_def Let_def)

text \<open>
  C7. On a line that begins with \<open>CommentUpdated=\<close> the extractor overwrites
  \<^verbatim>\<open>assembly_date\<close> with the rest of the line, cut to the 19 bytes the field has room
  for, and a NUL after it; the string in the field is then this rest (up to a NUL byte of
  its own). On every other line the record is unchanged. After the lines \<open>X=1\<close>,
  \<open>CommentUpdated=2020\<close>, \<open>noise\<close>, \<open>CommentUpdated=2021\<close>, in this order, the
  field holds \<open>2021\<close>.
\<close>

theorem InspectLog_last_match_wins:
  assumes "length (assembly_date info) = assembly_date_size"
  shows "(take 15 line = ''CommentUpdated='' \<longrightarrow>
            assembly_date (SysInfoLineParser_InspectLog info line)
              = take 19 (drop 15 line) @ NUL
                # drop (Suc (min (length line - 15) 19)) (assembly_date info)
            \<and> c_string (assembly_date (SysInfoLineParser_InspectLog info line))
              = c_string (take 19 (drop 15 line))
            \<and> original_firmware (SysInfoLineParser_InspectLog info line)
              = original_firmware info)
         \<and> (take 15 line \<noteq> ''CommentUpdated='' \<longrightarrow>
              SysInfoLineParser_InspectLog info line = info)
         \<and> c_string (assembly_date (foldl SysInfoLineParser_InspectLog info
              [''X=1'', ''CommentUpdated=2020'', ''noise'', ''CommentUpdated=2021'']))
            = ''2021''"
proof -
  have prefix: "take 15 line = ''CommentUpdated=''
      \<longleftrightarrow> take (length s_commentUpdated) line = s_commentUpdated" for line
    unfolding s_commentUpdated_length by (simp add: s_commentUpdated_def)
  have 1: "assembly_date (SysInfoLineParser_InspectLog info line)
             = take 19 (drop 15 line) @ NUL
               # drop (Suc (min (length line - 15) 19)) (assembly_date info)"
    if "take 15 line = ''CommentUpdated=''"
    using InspectLog_match [OF assms] that prefix by blast
  have 2: "SysInfoLineParser_InspectLog info line = info"
    if "take 15 line \<noteq> ''CommentUpdated=''"
    using InspectLog_no_match that prefix by blast
  let ?i1 = "SysInfoLineParser_InspectLog info ''X=1''"
  let ?i2 = "SysInfoLineParser_InspectLog ?i1 ''CommentUpdated=2020''"
  let ?i3 = "SysInfoLineParser_InspectLog ?i2 ''noise''"
  have "length (assembly_date ?i3) = assembly_date_size"
    using assms by (intro InspectLog_length)
  from InspectLog_match [OF this, of "''CommentUpdated=2021''"]
  have 3: "c_string (assembly_date (SysInfoLineParser_InspectLog ?i3 ''CommentUpdated=2021''))
           = ''2021''"
    by (simp add: s_commentUpdated_def c_string_terminated) (simp add: c_string_def)
  show ?thesis
    using 1 2 3 by (simp add: c_string_terminated InspectLog_other_fields)
qed

text \<open>C7 at a line whose rest is longer than the field.\<close>

theorem InspectLog_last_match_wins_witness:
  "c_string (assembly_date (SysInfoLineParser_InspectLog
      \<lparr>assembly_date = ''<unknown>'' @ replicate 11 NUL, original_firmware = []\<rparr>
      ''CommentUpdated=2019/01/02 03:04:05 extra''))
   = ''2019/01/02 03:04:05''"
  using InspectLog_last_match_wins [of
      "\<lparr>assembly_date = ''<unknown>'' @ replicate 11 NUL, original_firmware = []\<rparr>"
      "''CommentUpdated=2019/01/02 03:04:05 extra''"]
  by (simp add: assembly_date_size_def c_string_def)

section \<open>The record extractor \<^verbatim>\<open>SysInfoLineParser_ProductLog\<close>\<close>

lemma find_whitespace_eq: "find_whitespace xs = dropWhile (\<lambda>c. c \<noteq> CHR '' '') xs"
  by (induction xs) auto

lemma skip_whitespace_eq: "skip_whitespace xs = dropWhile (\<lambda>c. c = CHR '' '') xs"
  by (induction xs) auto

lemma span_length: "length xs - length (dropWhile P xs) = length (takeWhile P xs)"
proof -
  have "length (takeWhile P xs) + length (dropWhile P xs) = length xs"
    by (simp flip: length_append)
  then show ?thesis by simp
qed

lemma take_span: "take (length (takeWhile P xs)) xs = takeWhile P xs"
  by (induction xs) auto

lemma compose_write:
  assumes "cl + 1 + nl + 1 \<le> length fw" "length cup = cl" "length nup = nl"
  shows "(memcpy ((memcpy fw 0 (cup @ cs) cl)[cl := d]) (cl + 1) (nup @ ns) nl)[cl + 1 + nl := z]
         = cup @ d # nup @ z # drop (cl + nl + 2) fw"
proof -
  have "memcpy fw 0 (cup @ cs) cl = cup @ drop cl fw"
    using assms by (simp add: memcpy_def)
  moreover have "(cup @ drop cl fw)[cl := d] = cup @ d # drop 1 (drop cl fw)"
    using assms by (intro poke_after) simp_all
  ultimately have 2: "(memcpy fw 0 (cup @ cs) cl)[cl := d] = cup @ d # drop (Suc cl) fw"
    by simp
  have 3: "memcpy (cup @ d # drop (Suc cl) fw) (cl + 1) (nup @ ns) nl
           = (cup @ d # nup) @ drop (cl + 1 + nl) fw"
    using assms by (simp add: memcpy_def add.commute)
  have 4: "((cup @ d # nup) @ drop (cl + 1 + nl) fw)[cl + 1 + nl := z]
           = (cup @ d # nup) @ z # drop 1 (drop (cl + 1 + nl) fw)"
    using assms by (intro poke_after) simp_all
  show ?thesis
    unfolding 2 3 4 by (simp add: add.commute)
qed

lemma ProductLog_cases:
  fixes info :: "'a SysInfo_scheme" and line :: "char list"
  defines "es \<equiv> SysInfo_CommaSplit 10 line"
  defines "entry \<equiv> \<lambda>k. entry_bytes line (es ! k)"
  defines "nup_start \<equiv> drop 4 (entry 7)"
  defines "nup_end \<equiv> find_whitespace nup_start"
  defines "verinfo' \<equiv> skip_whitespace nup_end"
  defines "cup_start \<equiv> drop 4 verinfo'"
  defines "cup_end \<equiv> find_whitespace cup_start"
  defines "nl \<equiv> length nup_start - length nup_end"
  defines "cl \<equiv> length cup_start - length cup_end"
  shows "SysInfoLineParser_ProductLog info line = info
         \<or> (8 \<le> length es \<and> entry 0 \<noteq> [] \<and> SysInfo_IsOnlyDigits (entry 0)
            \<and> entry 1 = ''DataList'' \<and> entry 2 = ''OK''
            \<and> 4 \<le> length (entry 7) \<and> take 4 (entry 7) = ''nup:''
            \<and> 4 \<le> length verinfo' \<and> take 4 verinfo' = ''cup:''
            \<and> cl + 1 + nl + 1 \<le> original_firmware_size
            \<and> SysInfoLineParser_ProductLog info line
                = info\<lparr>original_firmware :=
                    (memcpy ((memcpy (original_firmware info) 0 cup_start cl)[cl := CHR ''-''])
                       (cl + 1) nup_start nl)[cl + 1 + nl := NUL]\<rparr>)"
proof -
  have eq: "SysInfoLineParser_ProductLog info line =
     (if length es < 2 then info
      else if length (entry 0) = 0 \<or> \<not> SysInfo_IsOnlyDigits (entry 0) then info
      else if length (entry 1) = 8 \<and> entry 1 = ''DataList'' then
        (if length es < 8 \<or> length (entry 2) \<noteq> 2 \<or> entry 2 \<noteq> ''OK'' then info
         else if length (entry 7) < 4 \<or> take 4 (entry 7) \<noteq> ''nup:'' then info
         else if length verinfo' < 4 \<or> take 4 verinfo' \<noteq> ''cup:'' then info
         else if (nl + cl) mod 2 ^ 32 < nl then info
         else if nl + cl > SIZE_MAX - 1 - 1 then info
         else if cl + 1 + nl + 1 > original_firmware_size then info
         else info\<lparr>original_firmware :=
                (memcpy ((memcpy (original_firmware info) 0 cup_start cl)[cl := CHR ''-''])
                   (cl + 1) nup_start nl)[cl + 1 + nl := NUL]\<rparr>)
      else info)"
    unfolding SysInfoLineParser_ProductLog_def Let_def es_def entry_def nup_start_def nup_end_def
      verinfo'_def cup_start_def cup_end_def nl_def cl_def
    by (rule refl)
  show ?thesis
    unfolding eq by (simp add: not_less)
qed

lemma dropWhile_front: "dropWhile P xs = [] \<or> \<not> P (hd (dropWhile P xs))"
  by (induction xs) auto

lemma take_prefix_split: "n \<le> length xs \<Longrightarrow> take n xs = p \<Longrightarrow> xs = p @ drop n xs"
  by (metis append_take_drop_id)

text \<open>
  C8. For every line, \<^verbatim>\<open>SysInfoLineParser_ProductLog\<close> either leaves the record
  unchanged or writes the whole value: the record changes only when the line has at
  least 8 entries, a non-empty first entry of digits, \<open>DataList\<close> and \<open>OK\<close> as second and
  third entry, and an eighth entry of the form \<open>nup:\<close>, a value without space, spaces,
  \<open>cup:\<close>, a value without space, and then the end of the entry or a space, with the
  two values, the added \<open>-\<close> and the NUL fitting into the 16 bytes of
  \<^verbatim>\<open>original_firmware\<close>; the field then starts with all of \<open>cup-nup\<close> and the NUL.
\<close>

theorem ProductLog_atomic:
  assumes "length (original_firmware info) = original_firmware_size"
  shows "SysInfoLineParser_ProductLog info line = info
         \<or> (\<exists>nup cup sp tail.
              8 \<le> length (SysInfo_CommaSplit 10 line)
              \<and> entry_bytes line (SysInfo_CommaSplit 10 line ! 0) \<noteq> []
              \<and> SysInfo_IsOnlyDigits (entry_bytes line (SysInfo_CommaSplit 10 line ! 0))
              \<and> entry_bytes line (SysInfo_CommaSplit 10 line ! 1) = ''DataList''
              \<and> entry_bytes line (SysInfo_CommaSplit 10 line ! 2) = ''OK''
              \<and> entry_bytes line (SysInfo_CommaSplit 10 line ! 7)
                  = ''nup:'' @ nup @ sp @ ''cup:'' @ cup @ tail
              \<and> CHR '' '' \<notin> set nup \<and> CHR '' '' \<notin> set cup
              \<and> sp \<noteq> [] \<and> set sp \<subseteq> {CHR '' ''}
              \<and> (tail = [] \<or> hd tail = CHR '' '')
              \<and> length cup + 1 + length nup + 1 \<le> original_firmware_size
              \<and> SysInfoLineParser_ProductLog info line
                  = info\<lparr>original_firmware :=
                      cup @ CHR ''-'' # nup @ NUL
                      # drop (length cup + length nup + 2) (original_firmware info)\<rparr>)"
proof (cases "SysInfoLineParser_ProductLog info line = info")
  case True
  then show ?thesis by simp
next
  case False
  define entry where "entry = (\<lambda>k. entry_bytes line (SysInfo_CommaSplit 10 line ! k))"
  define nup_start where "nup_start = drop 4 (entry 7)"
  define nup_end where "nup_end = find_whitespace nup_start"
  define verinfo' where "verinfo' = skip_whitespace nup_end"
  define cup_start where "cup_start = drop 4 verinfo'"
  define cup_end where "cup_end = find_whitespace cup_start"
  define nup where "nup = takeWhile (\<lambda>c. c \<noteq> CHR '' '') nup_start"
  define sp where "sp = takeWhile (\<lambda>c. c = CHR '' '') nup_end"
  define cup where "cup = takeWhile (\<lambda>c. c \<noteq> CHR '' '') cup_start"
  note defs = entry_def nup_start_def nup_end_def verinfo'_def cup_start_def cup_end_def
  from False ProductLog_cases [of info line]
  have fields: "8 \<le> length (SysInfo_CommaSplit 10 line)" "entry 0 \<noteq> []"
      "SysInfo_IsOnlyDigits (entry 0)" "entry 1 = ''DataList''" "entry 2 = ''OK''"
    and nup4: "4 \<le> length (entry 7)" "take 4 (entry 7) = ''nup:''"
    and cup4: "4 \<le> length verinfo'" "take 4 verinfo' = ''cup:''"
    and fits: "(length cup_start - length cup_end) + 1 + (length nup_start - length nup_end) + 1
                \<le> original_firmware_size"
    and written: "SysInfoLineParser_ProductLog info line
        = info\<lparr>original_firmware :=
            (memcpy ((memcpy (original_firmware info) 0 cup_start
                        (length cup_start - length cup_end))
                     [length cup_start - length cup_end := CHR ''-''])
               (length cup_start - length cup_end + 1) nup_start
               (length nup_start - length nup_end))
            [length cup_start - length cup_end + 1 + (length nup_start - length nup_end) := NUL]\<rparr>"
    unfolding defs by blast+
  have nl: "length nup_start - length nup_end = length nup"
    unfolding nup_end_def nup_def find_whitespace_eq by (rule span_length)
  have cl: "length cup_start - length cup_end = length cup"
    unfolding cup_end_def cup_def find_whitespace_eq by (rule span_length)
  have s1: "entry 7 = ''nup:'' @ nup_start"
    unfolding nup_start_def using nup4 by (rule take_prefix_split)
  have s2: "nup_start = nup @ nup_end"
    unfolding nup_end_def nup_def find_whitespace_eq by simp
  have s3: "nup_end = sp @ verinfo'"
    unfolding verinfo'_def sp_def skip_whitespace_eq by simp
  have s4: "verinfo' = ''cup:'' @ cup_start"
    unfolding cup_start_def using cup4 by (rule take_prefix_split)
  have s5: "cup_start = cup @ cup_end"
    unfolding cup_end_def cup_def find_whitespace_eq by simp
  have e7: "entry 7 = ''nup:'' @ nup @ sp @ ''cup:'' @ cup @ cup_end"
    using s1 s2 s3 s4 s5 by simp
  have nosp: "CHR '' '' \<notin> set nup" "CHR '' '' \<notin> set cup"
    unfolding nup_def cup_def by (auto dest: set_takeWhileD)
  have spaces: "set sp \<subseteq> {CHR '' ''}"
    unfolding sp_def by (auto dest: set_takeWhileD)
  have tail: "cup_end = [] \<or> hd cup_end = CHR '' ''"
    unfolding cup_end_def find_whitespace_eq
    using dropWhile_front [of "\<lambda>c. c \<noteq> CHR '' ''" cup_start] by simp
  have sp_ne: "sp \<noteq> []"
  proof
    assume "sp = []"
    then have "nup_end = verinfo'"
      using s3 by simp
    moreover have "nup_end = [] \<or> hd nup_end = CHR '' ''"
      unfolding nup_end_def find_whitespace_eq
      using dropWhile_front [of "\<lambda>c. c \<noteq> CHR '' ''" nup_start] by simp
    ultimately show False
      using s4 by auto
  qed
  have fits': "length cup + 1 + length nup + 1 \<le> original_firmware_size"
    using fits by (simp add: nl cl)
  have "(memcpy ((memcpy (original_firmware info) 0 (cup @ cup_end) (length cup))
                   [length cup := CHR ''-''])
           (length cup + 1) (nup @ nup_end) (length nup))
        [length cup + 1 + length nup := NUL]
        = cup @ CHR ''-'' # nup @ NUL # drop (length cup + length nup + 2) (original_firmware info)"
    using fits' assms by (intro compose_write) simp_all
  then have result: "SysInfoLineParser_ProductLog info line
      = info\<lparr>original_firmware :=
          cup @ CHR ''-'' # nup @ NUL
          # drop (length cup + length nup + 2) (original_firmware info)\<rparr>"
    using written unfolding nl cl by (simp flip: s2 s5)
  show ?thesis
    using fields e7 nosp spaces tail sp_ne fits' result unfolding entry_def by blast
qed

text \<open>C8 at a line of a factory log: the record changes, so the value is written whole.\<close>

theorem ProductLog_atomic_witness:
  "\<exists>nup cup sp tail.
     8 \<le> length (SysInfo_CommaSplit 10 ''1,DataList,OK,a,b,c,d,nup:20U cup:9.0.0 preInstall:RA1'')
     \<and> entry_bytes ''1,DataList,OK,a,b,c,d,nup:20U cup:9.0.0 preInstall:RA1''
          (SysInfo_CommaSplit 10 ''1,DataList,OK,a,b,c,d,nup:20U cup:9.0.0 preInstall:RA1'' ! 0) \<noteq> []
     \<and> SysInfo_IsOnlyDigits (entry_bytes ''1,DataList,OK,a,b,c,d,nup:20U cup:9.0.0 preInstall:RA1''
          (SysInfo_CommaSplit 10 ''1,DataList,OK,a,b,c,d,nup:20U cup:9.0.0 preInstall:RA1'' ! 0))
     \<and> entry_bytes ''1,DataList,OK,a,b,c,d,nup:20U cup:9.0.0 preInstall:RA1''
          (SysInfo_CommaSplit 10 ''1,DataList,OK,a,b,c,d,nup:20U cup:9.0.0 preInstall:RA1'' ! 1)
        = ''DataList''
     \<and> entry_bytes ''1,DataList,OK,a,b,c,d,nup:20U cup:9.0.0 preInstall:RA1''
          (SysInfo_CommaSplit 10 ''1,DataList,OK,a,b,c,d,nup:20U cup:9.0.0 preInstall:RA1'' ! 2)
        = ''OK''
     \<and> entry_bytes ''1,DataList,OK,a,b,c,d,nup:20U cup:9.0.0 preInstall:RA1''
          (SysInfo_CommaSplit 10 ''1,DataList,OK,a,b,c,d,nup:20U cup:9.0.0 preInstall:RA1'' ! 7)
        = ''nup:'' @ nup @ sp @ ''cup:'' @ cup @ tail
     \<and> CHR '' '' \<notin> set nup \<and> CHR '' '' \<notin> set cup
     \<and> sp \<noteq> [] \<and> set sp \<subseteq> {CHR '' ''}
     \<and> (tail = [] \<or> hd tail = CHR '' '')
     \<and> length cup + 1 + length nup + 1 \<le> original_firmware_size
     \<and> SysInfoLineParser_ProductLog
          \<lparr>assembly_date = [], original_firmware = ''<unknown>'' @ [NUL, NUL, NUL, NUL, NUL, NUL, NUL]\<rparr>
          ''1,DataList,OK,a,b,c,d,nup:20U cup:9.0.0 preInstall:RA1''
        = \<lparr>assembly_date = [], original_firmware = ''<unknown>'' @ [NUL, NUL, NUL, NUL, NUL, NUL, NUL]\<rparr>
          \<lparr>original_firmware :=
             cup @ CHR ''-'' # nup @ NUL
             # drop (length cup + length nup + 2)
                 (original_firmware \<lparr>assembly_date = [],
                    original_firmware = ''<unknown>'' @ [NUL, NUL, NUL, NUL, NUL, NUL, NUL]\<rparr>)\<rparr>"
  (is ?written)
proof -
  let ?info = "\<lparr>assembly_date = [],
                 original_firmware = ''<unknown>'' @ [NUL, NUL, NUL, NUL, NUL, NUL, NUL]\<rparr>"
  let ?line = "''1,DataList,OK,a,b,c,d,nup:20U cup:9.0.0 preInstall:RA1''"
  have changed: "SysInfoLineParser_ProductLog ?info ?line \<noteq> ?info"
    by (simp add: SysInfoLineParser_ProductLog_def SysInfo_CommaSplit_def loop_comma loop_no_comma
          entry_bytes_def isdigit_def memcpy_def SIZE_MAX_def original_firmware_size_def Let_def)
  have "SysInfoLineParser_ProductLog ?info ?line = ?info \<or> ?written"
    by (rule ProductLog_atomic) (simp add: original_firmware_size_def)
  then show ?written
  proof (rule disjE)
    assume "SysInfoLineParser_ProductLog ?info ?line = ?info"
    with changed show ?written by (rule notE)
  next
    assume ?written
    then show ?written .
  qed
qed

text \<open>The value written for that line, and a line whose value does not fit.\<close>

lemma ProductLog_example:
  "c_string (original_firmware (SysInfoLineParser_ProductLog
      \<lparr>assembly_date = [], original_firmware = ''<unknown>'' @ [NUL, NUL, NUL, NUL, NUL, NUL, NUL]\<rparr>
      ''1,DataList,OK,a,b,c,d,nup:20U cup:9.0.0 preInstall:RA1''))
   = ''9.0.0-20U''"
  by (simp add: SysInfoLineParser_ProductLog_def SysInfo_CommaSplit_def loop_comma loop_last_entry
        loop_no_comma entry_bytes_def isdigit_def memcpy_def SIZE_MAX_def original_firmware_size_def
        c_string_def Let_def)

lemma ProductLog_too_long_example:
  "SysInfoLineParser_ProductLog
      \<lparr>assembly_date = [], original_firmware = ''<unknown>'' @ [NUL, NUL, NUL, NUL, NUL, NUL, NUL]\<rparr>
      ''1,DataList,OK,a,b,c,d,nup:20000U cup:9.0.0.1234''
   = \<lparr>assembly_date = [], original_firmware = ''<unknown>'' @ [NUL, NUL, NUL, NUL, NUL, NUL, NUL]\<rparr>"
  by (simp add: SysInfoLineParser_ProductLog_def SysInfo_CommaSplit_def loop_comma loop_last_entry
        loop_no_comma entry_bytes_def isdigit_def memcpy_def SIZE_MAX_def original_firmware_size_def
        Let_def)

end
